theory Spec2Isabelle
  imports Main "HOL-Library.Word"
begin

unbundle bit_operations_syntax

section \<open>Bytes, errors and the writer capability\<close>

type_synonym byte = "8 word"

text \<open>
  A Go \<^verbatim>\<open>[]byte\<close> and a Go \<^verbatim>\<open>string\<close> are both byte sequences: \<open>byte list\<close>.
  The scanner's \<^verbatim>\<open>SyntaxError\<close> carries a message and the byte offset; the message
  is either "invalid character c context" or "unexpected end of JSON input".
  \<open>IOError\<close> is the failure of an output sink.
\<close>

datatype syntax_msg = InvalidCharacter byte string | UnexpectedEnd

datatype error = SyntaxError syntax_msg "64 word" | IOError

text \<open>
  Modelled from the spec: the \<^verbatim>\<open>writer\<close> interface and its two implementations
  (\<^verbatim>\<open>bytes.Buffer\<close> and the \<^verbatim>\<open>convertWriter\<close> adapter around an arbitrary sink)
  are not among the source files. Spec 4.4: "a native growable in-memory buffer
  (cheap, never fails) and an adapter wrapping an arbitrary output sink that may
  fail (propagates the underlying I/O error)". \<open>room = None\<close> is the buffer;
  \<open>room = Some k\<close> is a sink that accepts \<open>k\<close> more bytes and then fails.
\<close>

record writer =
  data :: "byte list"
  room :: "nat option"

abbreviation Buffer :: "byte list \<Rightarrow> writer" where
  "Buffer d \<equiv> \<lparr>data = d, room = None\<rparr>"

definition Write_w :: "writer \<Rightarrow> byte list \<Rightarrow> error option \<times> writer" where
  "Write_w w p =
     (case room w of
        None \<Rightarrow> (None, w\<lparr>data := data w @ p\<rparr>)
      | Some k \<Rightarrow>
          if length p \<le> k then (None, w\<lparr>data := data w @ p, room := Some (k - length p)\<rparr>)
          else (Some IOError, w\<lparr>data := data w @ take k p, room := Some 0\<rparr>))"

definition WriteByte :: "writer \<Rightarrow> byte \<Rightarrow> error option \<times> writer" where
  "WriteByte w c = Write_w w [c]"

definition WriteString :: "writer \<Rightarrow> byte list \<Rightarrow> error option \<times> writer" where
  "WriteString w s = Write_w w s"

text \<open>\<^verbatim>\<open>dst.Len()\<close> and \<^verbatim>\<open>dst.Truncate(n)\<close> of \<^verbatim>\<open>bytes.Buffer\<close>.\<close>

definition Len :: "writer \<Rightarrow> nat" where
  "Len w = length (data w)"

definition Truncate :: "writer \<Rightarrow> nat \<Rightarrow> writer" where
  "Truncate w n = w\<lparr>data := take n (data w)\<rparr>"

text \<open>
  \<^verbatim>\<open>if _, err := f(); err != nil { return err }\<close> chains: the next write runs only
  when the previous one returned no error.
\<close>

definition andThen ::
  "error option \<times> writer \<Rightarrow> (writer \<Rightarrow> error option \<times> writer) \<Rightarrow> error option \<times> writer" where
  "andThen r f = (case r of (None, w) \<Rightarrow> f w | (Some e, w) \<Rightarrow> (Some e, w))"

section \<open>The scanner\<close>

text \<open>
  Modelled from the spec: the scanner (its type, \<^verbatim>\<open>reset\<close>, \<^verbatim>\<open>step\<close>, \<^verbatim>\<open>eof\<close>, the
  \<^verbatim>\<open>scan*\<close> classification codes) is declared in a file of the package that is
  not among the source files. Spec 3 and 4.1 describe it: a finite-state machine
  over single bytes holding the current state, the stack of open objects and
  arrays, a running byte count and a deferred error; \<^verbatim>\<open>reset\<close> returns it to the
  initial state; \<^verbatim>\<open>step\<close> consumes one byte and returns its classification, an
  error being terminal; \<^verbatim>\<open>eof\<close> reports an error when the document is left in a
  non-terminal state. The state table is the one of the Go standard library's
  JSON scanner, which this package is a copy of; the classification codes are
  integers in the order the transforms compare them in
  (\<^verbatim>\<open>v >= scanSkipSpace\<close>). The stack \<open>parseState\<close> has its top at the head.
\<close>

definition scanContinue :: int where [simp]: "scanContinue = 0"
definition scanBeginLiteral :: int where [simp]: "scanBeginLiteral = 1"
definition scanBeginObject :: int where [simp]: "scanBeginObject = 2"
definition scanObjectKey :: int where [simp]: "scanObjectKey = 3"
definition scanObjectValue :: int where [simp]: "scanObjectValue = 4"
definition scanEndObject :: int where [simp]: "scanEndObject = 5"
definition scanBeginArray :: int where [simp]: "scanBeginArray = 6"
definition scanArrayValue :: int where [simp]: "scanArrayValue = 7"
definition scanEndArray :: int where [simp]: "scanEndArray = 8"
definition scanSkipSpace :: int where [simp]: "scanSkipSpace = 9"
definition scanEnd :: int where [simp]: "scanEnd = 10"
definition scanError :: int where [simp]: "scanError = 11"

datatype parse_state = parseObjectKey | parseObjectValue | parseArrayValue

datatype step_fn =
    StBeginValueOrEmpty | StBeginValue | StBeginStringOrEmpty | StBeginString
  | StEndValue | StEndTop
  | StInString | StInStringEsc | StInStringEscU | StInStringEscU1
  | StInStringEscU12 | StInStringEscU123
  | StNeg | St1 | St0 | StDot | StDot0 | StE | StESign | StE0
  | StT | StTr | StTru | StF | StFa | StFal | StFals | StN | StNu | StNul
  | StError

record scanner =
  step :: step_fn
  endTop :: bool
  parseState :: "parse_state list"
  err :: "error option"
  bytes :: "64 word"

definition new_scanner :: scanner where
  "new_scanner = \<lparr>step = StBeginValue, endTop = False, parseState = [], err = None, bytes = 0\<rparr>"

definition isSpace :: "byte \<Rightarrow> bool" where
  "isSpace c \<longleftrightarrow> c = 0x20 \<or> c = 0x09 \<or> c = 0x0D \<or> c = 0x0A"

definition scan_error :: "scanner \<Rightarrow> byte \<Rightarrow> string \<Rightarrow> int \<times> scanner" where
  "scan_error s c context =
     (scanError, s\<lparr>step := StError, err := Some (SyntaxError (InvalidCharacter c context) (bytes s))\<rparr>)"

definition pushParseState :: "scanner \<Rightarrow> parse_state \<Rightarrow> scanner" where
  "pushParseState s p = s\<lparr>parseState := p # parseState s\<rparr>"

definition popParseState :: "scanner \<Rightarrow> scanner" where
  "popParseState s =
     (let ps = tl (parseState s) in
      if ps = [] then s\<lparr>parseState := ps, step := StEndTop, endTop := True\<rparr>
      else s\<lparr>parseState := ps, step := StEndValue\<rparr>)"

definition stateError :: "scanner \<Rightarrow> byte \<Rightarrow> int \<times> scanner" where
  "stateError s c = (scanError, s)"

definition stateEndTop :: "scanner \<Rightarrow> byte \<Rightarrow> int \<times> scanner" where
  "stateEndTop s c =
     (if c \<noteq> 0x20 \<and> c \<noteq> 0x09 \<and> c \<noteq> 0x0D \<and> c \<noteq> 0x0A
      then (scanEnd, snd (scan_error s c ''after top-level value''))
      else (scanEnd, s))"

definition stateEndValue :: "scanner \<Rightarrow> byte \<Rightarrow> int \<times> scanner" where
  "stateEndValue s c =
     (case parseState s of
        [] \<Rightarrow> stateEndTop (s\<lparr>step := StEndTop, endTop := True\<rparr>) c
      | ps # rest \<Rightarrow>
          if c \<le> 0x20 \<and> isSpace c then (scanSkipSpace, s\<lparr>step := StEndValue\<rparr>)
          else (case ps of
              parseObjectKey \<Rightarrow>
                if c = 0x3A
                then (scanObjectKey, s\<lparr>parseState := parseObjectValue # rest, step := StBeginValue\<rparr>)
                else scan_error s c ''after object key''
            | parseObjectValue \<Rightarrow>
                if c = 0x2C
                then (scanObjectValue, s\<lparr>parseState := parseObjectKey # rest, step := StBeginString\<rparr>)
                else if c = 0x7D then (scanEndObject, popParseState s)
                else scan_error s c ''after object key:value pair''
            | parseArrayValue \<Rightarrow>
                if c = 0x2C then (scanArrayValue, s\<lparr>step := StBeginValue\<rparr>)
                else if c = 0x5D then (scanEndArray, popParseState s)
                else scan_error s c ''after array element''))"

definition stateInString :: "scanner \<Rightarrow> byte \<Rightarrow> int \<times> scanner" where
  "stateInString s c =
     (if c = 0x22 then (scanContinue, s\<lparr>step := StEndValue\<rparr>)
      else if c = 0x5C then (scanContinue, s\<lparr>step := StInStringEsc\<rparr>)
      else if c < 0x20 then scan_error s c ''in string literal''
      else (scanContinue, s))"

definition stateInStringEsc :: "scanner \<Rightarrow> byte \<Rightarrow> int \<times> scanner" where
  "stateInStringEsc s c =
     (if c = 0x62 \<or> c = 0x66 \<or> c = 0x6E \<or> c = 0x72 \<or> c = 0x74 \<or> c = 0x5C \<or> c = 0x2F \<or> c = 0x22
      then (scanContinue, s\<lparr>step := StInString\<rparr>)
      else if c = 0x75 then (scanContinue, s\<lparr>step := StInStringEscU\<rparr>)
      else scan_error s c ''in string escape code'')"

definition hex_context :: string where
  "hex_context = ''in '' @ [CHR 0x5C] @ ''u hexadecimal character escape''"

definition isHex :: "byte \<Rightarrow> bool" where
  "isHex c \<longleftrightarrow> 0x30 \<le> c \<and> c \<le> 0x39 \<or> 0x61 \<le> c \<and> c \<le> 0x66 \<or> 0x41 \<le> c \<and> c \<le> 0x46"

definition stateInStringEscU :: "scanner \<Rightarrow> byte \<Rightarrow> int \<times> scanner" where
  "stateInStringEscU s c =
     (if isHex c then (scanContinue, s\<lparr>step := StInStringEscU1\<rparr>)
      else scan_error s c hex_context)"

definition stateInStringEscU1 :: "scanner \<Rightarrow> byte \<Rightarrow> int \<times> scanner" where
  "stateInStringEscU1 s c =
     (if isHex c then (scanContinue, s\<lparr>step := StInStringEscU12\<rparr>)
      else scan_error s c hex_context)"

definition stateInStringEscU12 :: "scanner \<Rightarrow> byte \<Rightarrow> int \<times> scanner" where
  "stateInStringEscU12 s c =
     (if isHex c then (scanContinue, s\<lparr>step := StInStringEscU123\<rparr>)
      else scan_error s c hex_context)"

definition stateInStringEscU123 :: "scanner \<Rightarrow> byte \<Rightarrow> int \<times> scanner" where
  "stateInStringEscU123 s c =
     (if isHex c then (scanContinue, s\<lparr>step := StInString\<rparr>)
      else scan_error s c hex_context)"

definition isDigit :: "byte \<Rightarrow> bool" where
  "isDigit c \<longleftrightarrow> 0x30 \<le> c \<and> c \<le> 0x39"

definition stateNeg :: "scanner \<Rightarrow> byte \<Rightarrow> int \<times> scanner" where
  "stateNeg s c =
     (if c = 0x30 then (scanContinue, s\<lparr>step := St0\<rparr>)
      else if 0x31 \<le> c \<and> c \<le> 0x39 then (scanContinue, s\<lparr>step := St1\<rparr>)
      else scan_error s c ''in numeric literal'')"

definition state0 :: "scanner \<Rightarrow> byte \<Rightarrow> int \<times> scanner" where
  "state0 s c =
     (if c = 0x2E then (scanContinue, s\<lparr>step := StDot\<rparr>)
      else if c = 0x65 \<or> c = 0x45 then (scanContinue, s\<lparr>step := StE\<rparr>)
      else stateEndValue s c)"

definition state1 :: "scanner \<Rightarrow> byte \<Rightarrow> int \<times> scanner" where
  "state1 s c =
     (if isDigit c then (scanContinue, s\<lparr>step := St1\<rparr>)
      else state0 s c)"

definition stateDot :: "scanner \<Rightarrow> byte \<Rightarrow> int \<times> scanner" where
  "stateDot s c =
     (if isDigit c then (scanContinue, s\<lparr>step := StDot0\<rparr>)
      else scan_error s c ''after decimal point in numeric literal'')"

definition stateDot0 :: "scanner \<Rightarrow> byte \<Rightarrow> int \<times> scanner" where
  "stateDot0 s c =
     (if isDigit c then (scanContinue, s)
      else if c = 0x65 \<or> c = 0x45 then (scanContinue, s\<lparr>step := StE\<rparr>)
      else stateEndValue s c)"

definition stateESign :: "scanner \<Rightarrow> byte \<Rightarrow> int \<times> scanner" where
  "stateESign s c =
     (if isDigit c then (scanContinue, s\<lparr>step := StE0\<rparr>)
      else scan_error s c ''in exponent of numeric literal'')"

definition stateE :: "scanner \<Rightarrow> byte \<Rightarrow> int \<times> scanner" where
  "stateE s c =
     (if c = 0x2B \<or> c = 0x2D then (scanContinue, s\<lparr>step := StESign\<rparr>)
      else stateESign s c)"

definition stateE0 :: "scanner \<Rightarrow> byte \<Rightarrow> int \<times> scanner" where
  "stateE0 s c =
     (if isDigit c then (scanContinue, s)
      else stateEndValue s c)"

text \<open>The keyword states: one expected byte each, then on to the next state.\<close>

definition expect :: "scanner \<Rightarrow> byte \<Rightarrow> byte \<Rightarrow> step_fn \<Rightarrow> string \<Rightarrow> int \<times> scanner" where
  "expect s c want nxt context =
     (if c = want then (scanContinue, s\<lparr>step := nxt\<rparr>) else scan_error s c context)"

definition stateBeginValue :: "scanner \<Rightarrow> byte \<Rightarrow> int \<times> scanner" where
  "stateBeginValue s c =
     (if c \<le> 0x20 \<and> isSpace c then (scanSkipSpace, s)
      else if c = 0x7B then (scanBeginObject, pushParseState (s\<lparr>step := StBeginStringOrEmpty\<rparr>) parseObjectKey)
      else if c = 0x5B then (scanBeginArray, pushParseState (s\<lparr>step := StBeginValueOrEmpty\<rparr>) parseArrayValue)
      else if c = 0x22 then (scanBeginLiteral, s\<lparr>step := StInString\<rparr>)
      else if c = 0x2D then (scanBeginLiteral, s\<lparr>step := StNeg\<rparr>)
      else if c = 0x30 then (scanBeginLiteral, s\<lparr>step := St0\<rparr>)
      else if c = 0x74 then (scanBeginLiteral, s\<lparr>step := StT\<rparr>)
      else if c = 0x66 then (scanBeginLiteral, s\<lparr>step := StF\<rparr>)
      else if c = 0x6E then (scanBeginLiteral, s\<lparr>step := StN\<rparr>)
      else if 0x31 \<le> c \<and> c \<le> 0x39 then (scanBeginLiteral, s\<lparr>step := St1\<rparr>)
      else scan_error s c ''looking for beginning of value'')"

definition stateBeginValueOrEmpty :: "scanner \<Rightarrow> byte \<Rightarrow> int \<times> scanner" where
  "stateBeginValueOrEmpty s c =
     (if c \<le> 0x20 \<and> isSpace c then (scanSkipSpace, s)
      else if c = 0x5D then stateEndValue s c
      else stateBeginValue s c)"

definition stateBeginString :: "scanner \<Rightarrow> byte \<Rightarrow> int \<times> scanner" where
  "stateBeginString s c =
     (if c \<le> 0x20 \<and> isSpace c then (scanSkipSpace, s)
      else if c = 0x22 then (scanBeginLiteral, s\<lparr>step := StInString\<rparr>)
      else scan_error s c ''looking for beginning of object key string'')"

text \<open>
  \<open>StBeginStringOrEmpty\<close> is entered only together with a push, so the stack it
  updates at \<^verbatim>\<open>parseState[n-1]\<close> is not empty there.
\<close>

definition stateBeginStringOrEmpty :: "scanner \<Rightarrow> byte \<Rightarrow> int \<times> scanner" where
  "stateBeginStringOrEmpty s c =
     (if c \<le> 0x20 \<and> isSpace c then (scanSkipSpace, s)
      else if c = 0x7D
      then stateEndValue (s\<lparr>parseState := parseObjectValue # tl (parseState s)\<rparr>) c
      else stateBeginString s c)"

text \<open>\<^verbatim>\<open>s.step(s, c)\<close>: the call through the scanner's current state function.\<close>

definition call_step :: "scanner \<Rightarrow> byte \<Rightarrow> int \<times> scanner" where
  "call_step s c =
     (case step s of
        StBeginValueOrEmpty \<Rightarrow> stateBeginValueOrEmpty s c
      | StBeginValue \<Rightarrow> stateBeginValue s c
      | StBeginStringOrEmpty \<Rightarrow> stateBeginStringOrEmpty s c
      | StBeginString \<Rightarrow> stateBeginString s c
      | StEndValue \<Rightarrow> stateEndValue s c
      | StEndTop \<Rightarrow> stateEndTop s c
      | StInString \<Rightarrow> stateInString s c
      | StInStringEsc \<Rightarrow> stateInStringEsc s c
      | StInStringEscU \<Rightarrow> stateInStringEscU s c
      | StInStringEscU1 \<Rightarrow> stateInStringEscU1 s c
      | StInStringEscU12 \<Rightarrow> stateInStringEscU12 s c
      | StInStringEscU123 \<Rightarrow> stateInStringEscU123 s c
      | StNeg \<Rightarrow> stateNeg s c
      | St1 \<Rightarrow> state1 s c
      | St0 \<Rightarrow> state0 s c
      | StDot \<Rightarrow> stateDot s c
      | StDot0 \<Rightarrow> stateDot0 s c
      | StE \<Rightarrow> stateE s c
      | StESign \<Rightarrow> stateESign s c
      | StE0 \<Rightarrow> stateE0 s c
      | StT \<Rightarrow> expect s c 0x72 StTr ''in literal true (expecting 'r')''
      | StTr \<Rightarrow> expect s c 0x75 StTru ''in literal true (expecting 'u')''
      | StTru \<Rightarrow> expect s c 0x65 StEndValue ''in literal true (expecting 'e')''
      | StF \<Rightarrow> expect s c 0x61 StFa ''in literal false (expecting 'a')''
      | StFa \<Rightarrow> expect s c 0x6C StFal ''in literal false (expecting 'l')''
      | StFal \<Rightarrow> expect s c 0x73 StFals ''in literal false (expecting 's')''
      | StFals \<Rightarrow> expect s c 0x65 StEndValue ''in literal false (expecting 'e')''
      | StN \<Rightarrow> expect s c 0x75 StNu ''in literal null (expecting 'u')''
      | StNu \<Rightarrow> expect s c 0x6C StNul ''in literal null (expecting 'l')''
      | StNul \<Rightarrow> expect s c 0x6C StEndValue ''in literal null (expecting 'l')''
      | StError \<Rightarrow> stateError s c)"

text \<open>
  \<^verbatim>\<open>eof\<close>: an error already recorded stays; a finished top-level value is the end;
  otherwise one space is fed to the current state (which ends a number), and an
  unfinished document becomes the error "unexpected end of JSON input".
\<close>

definition eof :: "scanner \<Rightarrow> int \<times> scanner" where
  "eof s =
     (if err s \<noteq> None then (scanError, s)
      else if endTop s then (scanEnd, s)
      else (let s1 = snd (call_step s 0x20) in
            if endTop s1 then (scanEnd, s1)
            else if err s1 = None
            then (scanError, s1\<lparr>err := Some (SyntaxError UnexpectedEnd (bytes s1))\<rparr>)
            else (scanError, s1)))"

section \<open>Compact\<close>

text \<open>
  Modelled from the spec: the constant \<^verbatim>\<open>hex\<close> is declared in a file of the package
  that is not among the source files. The spec (section 6) gives the escapes in
  lower-case hexadecimal (\<^verbatim>\<open>\u003c\<close>, \<^verbatim>\<open>\u003e\<close>), so it is the digit string
  "0123456789abcdef".
\<close>

definition hex :: "byte list" where
  "hex = [0x30, 0x31, 0x32, 0x33, 0x34, 0x35, 0x36, 0x37, 0x38, 0x39,
          0x61, 0x62, 0x63, 0x64, 0x65, 0x66]"

text \<open>\<^verbatim>\<open>src[a:b]\<close>; every use is guarded by \<open>a < b\<close> with \<open>b\<close> within the slice.\<close>

definition slice :: "byte list \<Rightarrow> nat \<Rightarrow> nat \<Rightarrow> byte list" where
  "slice src a b = take (b - a) (drop a src)"

text \<open>\<^verbatim>\<open>if start < i { dst.Write(src[start:i]) }\<close>\<close>

definition flush :: "writer \<Rightarrow> byte list \<Rightarrow> nat \<Rightarrow> nat \<Rightarrow> error option \<times> writer" where
  "flush w src start i = (if start < i then Write_w w (slice src start i) else (None, w))"

text \<open>Lines 32-48: the escape of \<^verbatim>\<open><\<close>, \<^verbatim>\<open>>\<close>, \<^verbatim>\<open>&\<close> as \<^verbatim>\<open>\u00XX\<close>, returning the new \<open>start\<close>.\<close>

definition escape_html ::
  "byte list \<Rightarrow> bool \<Rightarrow> nat \<Rightarrow> byte \<Rightarrow> nat \<Rightarrow> writer \<Rightarrow> error option \<times> nat \<times> writer" where
  "escape_html src escape i c start w =
     (if escape \<and> (c = 0x3C \<or> c = 0x3E \<or> c = 0x26) then
        (case andThen (andThen (andThen (flush w src start i)
                (\<lambda>w. WriteString w [0x5C, 0x75, 0x30, 0x30]))
                (\<lambda>w. WriteByte w (hex ! unat (drop_bit 4 c))))
                (\<lambda>w. WriteByte w (hex ! unat (c AND 0xF))) of
           (Some e, w') \<Rightarrow> (Some e, start, w')
         | (None, w') \<Rightarrow> (None, i + 1, w'))
      else (None, start, w))"

text \<open>Lines 49-63: U+2028 and U+2029 (E2 80 A8 and E2 80 A9) as \<^verbatim>\<open>\u202X\<close>.\<close>

definition escape_linesep ::
  "byte list \<Rightarrow> nat \<Rightarrow> byte \<Rightarrow> nat \<Rightarrow> writer \<Rightarrow> error option \<times> nat \<times> writer" where
  "escape_linesep src i c start w =
     (if c = 0xE2 \<and> i + 2 < length src \<and> src ! (i + 1) = 0x80
         \<and> (src ! (i + 2)) AND NOT 1 = 0xA8 then
        (case andThen (andThen (flush w src start i)
                (\<lambda>w. WriteString w [0x5C, 0x75, 0x32, 0x30, 0x32]))
                (\<lambda>w. WriteByte w (hex ! unat ((src ! (i + 2)) AND 0xF))) of
           (Some e, w') \<Rightarrow> (Some e, start, w')
         | (None, w') \<Rightarrow> (None, i + 3, w'))
      else (None, start, w))"

text \<open>
  The loop \<^verbatim>\<open>for i, c := range src\<close> of \<^verbatim>\<open>compact\<close>, on the bytes from index \<open>i\<close>
  on. The result is the error of an early \<^verbatim>\<open>return err\<close>, if any, and the scanner,
  \<open>start\<close> and writer at the loop's exit (by \<^verbatim>\<open>break\<close> or at the end of \<open>src\<close>).
\<close>

fun compact_loop ::
  "byte list \<Rightarrow> bool \<Rightarrow> nat \<Rightarrow> byte list \<Rightarrow> scanner \<Rightarrow> nat \<Rightarrow> writer
     \<Rightarrow> error option \<times> scanner \<times> nat \<times> writer" where
  "compact_loop src escape i [] scan start w = (None, scan, start, w)"
| "compact_loop src escape i (c # cs) scan start w =
     (case escape_html src escape i c start w of
        (Some e, start1, w1) \<Rightarrow> (Some e, scan, start1, w1)
      | (None, start1, w1) \<Rightarrow>
          (case escape_linesep src i c start1 w1 of
             (Some e, start2, w2) \<Rightarrow> (Some e, scan, start2, w2)
           | (None, start2, w2) \<Rightarrow>
               (case call_step scan c of (v, scan') \<Rightarrow>
                  if v \<ge> scanSkipSpace then
                    if v = scanError then (None, scan', start2, w2)
                    else (case flush w2 src start2 i of
                            (Some e, w3) \<Rightarrow> (Some e, scan', start2, w3)
                          | (None, w3) \<Rightarrow> compact_loop src escape (i + 1) cs scan' (i + 1) w3)
                  else compact_loop src escape (i + 1) cs scan' start2 w2)))"

definition compact :: "writer \<Rightarrow> byte list \<Rightarrow> bool \<Rightarrow> error option \<times> writer" where
  "compact dst src escape =
     (case compact_loop src escape 0 src new_scanner 0 dst of
        (Some e, scan, start, w) \<Rightarrow> (Some e, w)
      | (None, scan, start, w) \<Rightarrow>
          (case eof scan of (v, scan') \<Rightarrow>
             if v = scanError then (err scan', w)
             else if start < length src then Write_w w (drop start src)
             else (None, w)))"

definition compactWithRevert :: "writer \<Rightarrow> byte list \<Rightarrow> bool \<Rightarrow> error option \<times> writer" where
  "compactWithRevert dst src escape =
     (let origLen = Len dst in
      case compact dst src escape of
        (Some e, w) \<Rightarrow> (Some e, Truncate w origLen)
      | (None, w) \<Rightarrow> (None, w))"

definition Compact :: "writer \<Rightarrow> byte list \<Rightarrow> error option \<times> writer" where
  "Compact dst src = compactWithRevert dst src False"

section \<open>Indent\<close>

text \<open>\<^verbatim>\<open>for i := 0; i < depth; i++ { dst.WriteString(indent) }\<close>, \<open>k\<close> rounds to go.\<close>

fun write_indents :: "writer \<Rightarrow> byte list \<Rightarrow> nat \<Rightarrow> error option \<times> writer" where
  "write_indents w indent 0 = (None, w)"
| "write_indents w indent (Suc k) =
     (case WriteString w indent of
        (Some e, w') \<Rightarrow> (Some e, w')
      | (None, w') \<Rightarrow> write_indents w' indent k)"

definition newline :: "writer \<Rightarrow> byte list \<Rightarrow> byte list \<Rightarrow> int \<Rightarrow> error option \<times> writer" where
  "newline dst prefix indent depth =
     andThen (andThen (WriteByte dst 0x0A) (\<lambda>w. WriteString w prefix))
       (\<lambda>w. write_indents w indent (nat depth))"

record indentWriter =
  dst :: writer
  prefix :: "byte list"
  indent :: "byte list"
  depth :: int
  scan :: scanner
  needIndent :: bool

text \<open>
  How one round of the loop of \<^verbatim>\<open>Write\<close> ends: \<^verbatim>\<open>continue\<close> (or the end of the loop
  body), \<^verbatim>\<open>break\<close>, or \<^verbatim>\<open>return n, err\<close> after a failed write to the sink.
\<close>

datatype outcome = Continue | Break | Return error

definition put :: "indentWriter \<Rightarrow> error option \<times> writer \<Rightarrow> outcome \<times> indentWriter" where
  "put w r = (case r of (None, d) \<Rightarrow> (Continue, w\<lparr>dst := d\<rparr>)
                      | (Some e, d) \<Rightarrow> (Return e, w\<lparr>dst := d\<rparr>))"

text \<open>Lines 188-230: \<^verbatim>\<open>switch c\<close>, the spacing around real punctuation.\<close>

definition punctuation :: "indentWriter \<Rightarrow> byte \<Rightarrow> outcome \<times> indentWriter" where
  "punctuation w c =
     (if c = 0x7B \<or> c = 0x5B then
        put (w\<lparr>needIndent := True\<rparr>) (WriteByte (dst w) c)
      else if c = 0x2C then
        put w (andThen (WriteByte (dst w) c) (\<lambda>d. newline d (prefix w) (indent w) (depth w)))
      else if c = 0x3A then
        put w (andThen (WriteByte (dst w) c) (\<lambda>d. WriteByte d 0x20))
      else if c = 0x7D \<or> c = 0x5D then
        (if needIndent w then
           put (w\<lparr>needIndent := False\<rparr>) (WriteByte (dst w) c)
         else
           put (w\<lparr>depth := depth w - 1\<rparr>)
             (andThen (newline (dst w) (prefix w) (indent w) (depth w - 1))
                (\<lambda>d. WriteByte d c)))
      else put w (WriteByte (dst w) c))"

text \<open>Lines 161-230: one round of the loop, for the byte \<open>c\<close>.\<close>

definition indent_byte :: "indentWriter \<Rightarrow> byte \<Rightarrow> outcome \<times> indentWriter" where
  "indent_byte w c =
     (case call_step ((scan w)\<lparr>bytes := bytes (scan w) + 1\<rparr>) c of (v, s1) \<Rightarrow>
        let w1 = w\<lparr>scan := s1\<rparr> in
        if v = scanSkipSpace then (Continue, w1)
        else if v = scanError then (Break, w1)
        else
          (case (if needIndent w1 \<and> v \<noteq> scanEndObject \<and> v \<noteq> scanEndArray
                 then put (w1\<lparr>needIndent := False, depth := depth w1 + 1\<rparr>)
                        (newline (dst w1) (prefix w1) (indent w1) (depth w1 + 1))
                 else (Continue, w1)) of
             (Continue, w2) \<Rightarrow>
               if v = scanContinue then put w2 (WriteByte (dst w2) c)
               else punctuation w2 c
           | (r, w2) \<Rightarrow> (r, w2)))"

text \<open>The loop \<^verbatim>\<open>for _, c := range src\<close> with the count \<open>n\<close> of bytes consumed.\<close>

fun write_loop :: "indentWriter \<Rightarrow> nat \<Rightarrow> byte list \<Rightarrow> outcome \<times> nat \<times> indentWriter" where
  "write_loop w n [] = (Continue, n, w)"
| "write_loop w n (c # cs) =
     (case indent_byte w c of
        (Continue, w') \<Rightarrow> write_loop w' (n + 1) cs
      | (r, w') \<Rightarrow> (r, n + 1, w'))"

definition Write :: "indentWriter \<Rightarrow> byte list \<Rightarrow> (nat \<times> error option) \<times> indentWriter" where
  "Write w src =
     (case write_loop w 0 src of
        (Return e, n, w') \<Rightarrow> ((n, Some e), w')
      | (r, n, w') \<Rightarrow>
          (case eof (scan w') of (v, s') \<Rightarrow>
             if v = scanError then ((n, err s'), w'\<lparr>scan := s'\<rparr>)
             else ((n, None), w'\<lparr>scan := s'\<rparr>)))"

definition Indent :: "writer \<Rightarrow> byte list \<Rightarrow> byte list \<Rightarrow> byte list \<Rightarrow> error option \<times> writer" where
  "Indent d src pre ind =
     (let origLen = Len d;
          w = \<lparr>dst = d, prefix = pre, indent = ind, depth = 0, scan = new_scanner,
               needIndent = False\<rparr>
      in case Write w src of
           ((n, Some e), w') \<Rightarrow> (Some e, Truncate (dst w') origLen)
         | ((n, None), w') \<Rightarrow> (None, dst w'))"

definition IndentWriter :: "writer \<Rightarrow> byte list \<Rightarrow> byte list \<Rightarrow> indentWriter" where
  "IndentWriter sink pre ind =
     \<lparr>dst = sink, prefix = pre, indent = ind, depth = 0, scan = new_scanner, needIndent = False\<rparr>"

text \<open>Successive \<^verbatim>\<open>Write\<close> calls on one stream, with the result of each call.\<close>

fun Writes :: "indentWriter \<Rightarrow> byte list list \<Rightarrow> (nat \<times> error option) list \<times> indentWriter" where
  "Writes w [] = ([], w)"
| "Writes w (p # ps) =
     (case Write w p of (r, w') \<Rightarrow>
        (case Writes w' ps of (rs, w'') \<Rightarrow> (r # rs, w'')))"

section \<open>Auxiliary notions for the properties\<close>

text \<open>
  \<open>grows w w'\<close>: the writer \<open>w'\<close> holds the data of \<open>w\<close> followed by further output,
  and a buffer stays a buffer.
\<close>

definition grows :: "writer \<Rightarrow> writer \<Rightarrow> bool" where
  "grows w w' \<longleftrightarrow> (\<exists>out. data w' = data w @ out) \<and> (room w = None \<longrightarrow> room w' = None)"

text \<open>The prefix and indent strings of a stream are fixed, and its sink only grows.\<close>

definition same_config :: "indentWriter \<Rightarrow> indentWriter \<Rightarrow> bool" where
  "same_config w w' \<longleftrightarrow> prefix w' = prefix w \<and> indent w' = indent w \<and> grows (dst w) (dst w')"

text \<open>The state \<open>StError\<close> is only entered together with a recorded error.\<close>

definition err_recorded :: "scanner \<Rightarrow> bool" where
  "err_recorded s \<longleftrightarrow> (step s = StError \<longrightarrow> err s \<noteq> None)"

text \<open>A stream that has not seen a significant byte yet.\<close>

definition at_begin :: "indentWriter \<Rightarrow> bool" where
  "at_begin w \<longleftrightarrow> step (scan w) = StBeginValue \<and> \<not> endTop (scan w) \<and> \<not> needIndent w"

text \<open>The scanner after a run of \<^verbatim>\<open>step\<close> calls over the bytes \<open>cs\<close>.\<close>

fun scan_run :: "scanner \<Rightarrow> byte list \<Rightarrow> scanner" where
  "scan_run s [] = s"
| "scan_run s (c # cs) = scan_run (snd (call_step s c)) cs"

text \<open>
  The significant bytes of a source: those the scanner classifies below
  \<open>scanSkipSpace\<close>, that is, everything but the space characters between tokens and
  after the top-level value.
\<close>

fun significant :: "scanner \<Rightarrow> byte list \<Rightarrow> byte list" where
  "significant s [] = []"
| "significant s (c # cs) =
     (if fst (call_step s c) \<ge> scanSkipSpace then significant (snd (call_step s c)) cs
      else c # significant (snd (call_step s c)) cs)"

text \<open>
  The escaping contract in the spec's words (section 6): with the flag set,
  the bytes \<^verbatim>\<open><\<close>, \<^verbatim>\<open>>\<close> and \<^verbatim>\<open>&\<close> become the six bytes \<^verbatim>\<open>\u003c\<close>, \<^verbatim>\<open>\u003e\<close> and
  \<^verbatim>\<open>\u0026\<close>; U+2028 and U+2029 (E2 80 A8 and E2 80 A9) become \<^verbatim>\<open>\u2028\<close> and
  \<^verbatim>\<open>\u2029\<close> (in the code: whatever the flag); all other bytes pass through
  unchanged.
\<close>

function escaped :: "bool \<Rightarrow> byte list \<Rightarrow> byte list" where
  "escaped esc [] = []"
| "escaped esc (c # cs) =
     (if esc \<and> c = 0x3C then [0x5C, 0x75, 0x30, 0x30, 0x33, 0x63] @ escaped esc cs
      else if esc \<and> c = 0x3E then [0x5C, 0x75, 0x30, 0x30, 0x33, 0x65] @ escaped esc cs
      else if esc \<and> c = 0x26 then [0x5C, 0x75, 0x30, 0x30, 0x32, 0x36] @ escaped esc cs
      else if c = 0xE2 \<and> take 2 cs = [0x80, 0xA8]
        then [0x5C, 0x75, 0x32, 0x30, 0x32, 0x38] @ escaped esc (drop 2 cs)
      else if c = 0xE2 \<and> take 2 cs = [0x80, 0xA9]
        then [0x5C, 0x75, 0x32, 0x30, 0x32, 0x39] @ escaped esc (drop 2 cs)
      else c # escaped esc cs)"
  by pat_completeness auto
termination
  by (relation "measure (\<lambda>(esc, cs). length cs)") auto

primrec has_linesep :: "byte list \<Rightarrow> bool" where
  "has_linesep [] = False"
| "has_linesep (a # r) =
     ((a = 0xE2 \<and> (take 2 r = [0x80, 0xA8] \<or> take 2 r = [0x80, 0xA9])) \<or> has_linesep r)"

definition raw_free :: "byte list \<Rightarrow> bool" where
  "raw_free out \<longleftrightarrow> 0x3C \<notin> set out \<and> 0x3E \<notin> set out \<and> 0x26 \<notin> set out \<and> \<not> has_linesep out"

text \<open>What \<^verbatim>\<open>newline\<close> writes: a newline, the prefix and \<open>k\<close> copies of the indent.\<close>

definition nl :: "byte list \<Rightarrow> byte list \<Rightarrow> int \<Rightarrow> byte list" where
  "nl pre ind k = 0x0A # pre @ concat (replicate (nat k) ind)"

text \<open>
  What one round of the loop of \<^verbatim>\<open>Write\<close> sends to the sink for a byte \<open>c\<close> classified
  \<open>v\<close> (neither skip nor error), with the new depth and pending-indent flag.
\<close>

definition emit ::
  "byte list \<Rightarrow> byte list \<Rightarrow> int \<Rightarrow> bool \<Rightarrow> int \<Rightarrow> byte \<Rightarrow> byte list \<times> int \<times> bool" where
  "emit pre ind dep need v c =
     (let first = (need \<and> v \<noteq> scanEndObject \<and> v \<noteq> scanEndArray);
          p = (if first then nl pre ind (dep + 1) else []);
          dep1 = (if first then dep + 1 else dep);
          need1 = (need \<and> \<not> first)
      in if v = scanContinue then (p @ [c], dep1, need1)
         else if c = 0x7B \<or> c = 0x5B then (p @ [c], dep1, True)
         else if c = 0x2C then (p @ c # nl pre ind dep1, dep1, need1)
         else if c = 0x3A then (p @ [c, 0x20], dep1, need1)
         else if c = 0x7D \<or> c = 0x5D then
           (if need1 then (p @ [c], dep1, False)
            else (p @ nl pre ind (dep1 - 1) @ [c], dep1 - 1, False))
         else (p @ [c], dep1, need1))"

text \<open>
  \<open>endTop\<close> is only set on entering \<open>StEndTop\<close>; on a stream, a pending indent means
  that the last significant byte opened an object or array.
\<close>

definition top_ok :: "scanner \<Rightarrow> bool" where
  "top_ok s \<longleftrightarrow> (endTop s \<longrightarrow> step s = StEndTop \<or> step s = StError)"

definition or_empty :: "scanner \<Rightarrow> bool" where
  "or_empty s \<longleftrightarrow> step s = StBeginStringOrEmpty \<or> step s = StBeginValueOrEmpty"

definition tidy :: "indentWriter \<Rightarrow> bool" where
  "tidy w \<longleftrightarrow> top_ok (scan w) \<and> step (scan w) \<noteq> StError \<and> err (scan w) = None
     \<and> (needIndent w \<longrightarrow> or_empty (scan w))"

text \<open>
  A scanner inside or just after a number leaves it at the next byte that cannot
  continue the number; \<open>settle\<close> is the scanner with the number already left.
  \<open>unb\<close> forgets the byte count, which only error messages read.
\<close>

definition ender :: "scanner \<Rightarrow> bool" where
  "ender s \<longleftrightarrow> step s = St0 \<or> step s = St1 \<or> step s = StDot0 \<or> step s = StE0
     \<or> step s = StEndValue"

definition settle :: "scanner \<Rightarrow> scanner" where
  "settle s = (if ender s then s\<lparr>step := StEndValue\<rparr> else s)"

definition unb :: "scanner \<Rightarrow> scanner" where
  "unb s = s\<lparr>bytes := 0\<rparr>"

definition numcont :: "byte \<Rightarrow> bool" where
  "numcont c \<longleftrightarrow> isDigit c \<or> c = 0x2E \<or> c = 0x65 \<or> c = 0x45"

text \<open>
  \<open>eqv\<close>: the same scanner but for the byte count. \<open>near\<close>: the same but for the byte
  count and a number one of them has yet to leave. \<open>lag\<close>: \<open>near\<close>, where only the
  second scanner may still be inside the number.
\<close>

definition eqv :: "scanner \<Rightarrow> scanner \<Rightarrow> bool" where
  "eqv S T \<longleftrightarrow> err S = None \<and> unb T = unb S"

definition near :: "scanner \<Rightarrow> scanner \<Rightarrow> bool" where
  "near S T \<longleftrightarrow> err S = None \<and> unb (settle T) = unb (settle S)"

definition lag :: "scanner \<Rightarrow> scanner \<Rightarrow> bool" where
  "lag S T \<longleftrightarrow> near S T \<and> (step T = step S \<or> (step S = StEndValue \<and> parseState S \<noteq> []))"

text \<open>A scanner on which space characters are skipped.\<close>

definition absorbs :: "scanner \<Rightarrow> bool" where
  "absorbs T \<longleftrightarrow> err T = None
     \<and> (step T = StBeginValue \<or> step T = StBeginString \<or> or_empty T
        \<or> (ender T \<and> parseState T \<noteq> []))"

section \<open>Writers only grow\<close>


lemma grows_refl [simp]: "grows w w"
  by (simp add: grows_def)

lemma grows_trans: "grows a b \<Longrightarrow> grows b c \<Longrightarrow> grows a c"
  by (auto simp: grows_def)

lemma Write_w_grows: "grows w (snd (Write_w w p))"
  by (auto simp: grows_def Write_w_def split: option.splits)

lemma andThen_grows:
  assumes "grows w (snd r)" and "\<And>x. grows x (snd (f x))"
  shows "grows w (snd (andThen r f))"
proof (cases r)
  case (Pair e x)
  with assms show ?thesis
    by (cases e) (auto simp: andThen_def intro: grows_trans)
qed

lemma flush_grows: "grows w (snd (flush w src start i))"
  by (simp add: flush_def Write_w_grows)

lemma escape_html_grows: "grows w (snd (snd (escape_html src escape i c start w)))"
proof -
  let ?r = "andThen (andThen (andThen (flush w src start i)
                (\<lambda>w. WriteString w [0x5C, 0x75, 0x30, 0x30]))
                (\<lambda>w. WriteByte w (hex ! unat (drop_bit 4 c))))
                (\<lambda>w. WriteByte w (hex ! unat (c AND 0xF)))"
  have "grows w (snd ?r)"
    by (intro andThen_grows flush_grows) (simp_all add: WriteString_def WriteByte_def Write_w_grows)
  then show ?thesis
    by (cases ?r) (auto simp: escape_html_def split: option.splits)
qed

lemma escape_linesep_grows: "grows w (snd (snd (escape_linesep src i c start w)))"
proof -
  let ?r = "andThen (andThen (flush w src start i)
                (\<lambda>w. WriteString w [0x5C, 0x75, 0x32, 0x30, 0x32]))
                (\<lambda>w. WriteByte w (hex ! unat ((src ! (i + 2)) AND 0xF)))"
  have "grows w (snd ?r)"
    by (intro andThen_grows flush_grows) (simp_all add: WriteString_def WriteByte_def Write_w_grows)
  then show ?thesis
    by (cases ?r) (auto simp: escape_linesep_def split: option.splits)
qed

lemma compact_loop_grows:
  "grows w (snd (snd (snd (compact_loop src escape i cs sc start w))))"
proof (induction cs arbitrary: i sc start w)
  case Nil
  show ?case by simp
next
  case (Cons c cs)
  obtain e1 s1 w1 where h: "escape_html src escape i c start w = (e1, s1, w1)"
    by (cases "escape_html src escape i c start w") auto
  have g1: "grows w w1" using escape_html_grows [of w src escape i c start] h by simp
  obtain e2 s2 w2 where l: "escape_linesep src i c s1 w1 = (e2, s2, w2)"
    by (cases "escape_linesep src i c s1 w1") auto
  have g2: "grows w w2"
    using escape_linesep_grows [of w1 src i c s1] l g1 by (auto intro: grows_trans)
  obtain v sc' where st: "call_step sc c = (v, sc')"
    by (cases "call_step sc c") auto
  obtain e3 w3 where f: "flush w2 src s2 i = (e3, w3)"
    by (cases "flush w2 src s2 i") auto
  have g3: "grows w w3"
    using flush_grows [of w2 src s2 i] f g2 by (auto intro: grows_trans)
  show ?case
    using h l st f g1 g2 g3 Cons.IH [of w3 "i + 1" sc' "i + 1"] Cons.IH [of w2 "i + 1" sc' s2]
    by (auto split: option.splits intro: grows_trans)
qed

lemma compact_grows: "grows w (snd (compact w src escape))"
proof -
  obtain e sc st w' where c: "compact_loop src escape 0 src new_scanner 0 w = (e, sc, st, w')"
    by (cases "compact_loop src escape 0 src new_scanner 0 w") auto
  have g: "grows w w'" using compact_loop_grows [of w src escape 0 src new_scanner 0] c by simp
  have "grows w (snd (Write_w w' (drop st src)))"
    using g Write_w_grows [of w' "drop st src"] by (rule grows_trans)
  with g c show ?thesis
    by (auto simp: compact_def split: option.splits prod.splits)
qed

lemma Truncate_grows: "grows (Buffer d) w \<Longrightarrow> Truncate w (Len (Buffer d)) = Buffer d"
  by (auto simp: grows_def Truncate_def Len_def)

lemma grows_Buffer: "grows (Buffer d) w \<Longrightarrow> \<exists>out. w = Buffer (d @ out)"
  by (cases w) (auto simp: grows_def)

lemma compactWithRevert_atomic:
  "compactWithRevert (Buffer d) src escape = (Some e, w) \<Longrightarrow> w = Buffer d"
  using compact_grows [of "Buffer d" src escape]
  by (auto simp: compactWithRevert_def Let_def Truncate_grows split: prod.splits option.splits)


lemma write_indents_grows: "grows w (snd (write_indents w ind k))"
proof (induction k arbitrary: w)
  case 0
  show ?case by simp
next
  case (Suc k)
  obtain e w' where h: "WriteString w ind = (e, w')"
    by (cases "WriteString w ind") auto
  have "grows w w'" using Write_w_grows [of w ind] h by (simp add: WriteString_def)
  with h Suc [of w'] show ?case
    by (cases e) (auto intro: grows_trans)
qed

lemma newline_grows: "grows w (snd (newline w pre ind k))"
  unfolding newline_def
  by (intro andThen_grows write_indents_grows)
     (simp_all add: WriteString_def WriteByte_def Write_w_grows)

lemma put_config:
  "prefix w = prefix w0 \<Longrightarrow> indent w = indent w0 \<Longrightarrow> grows (dst w0) (snd r)
     \<Longrightarrow> same_config w0 (snd (put w r))"
  by (cases r) (auto simp: put_def same_config_def split: option.splits)

lemma punctuation_config: "same_config w (snd (punctuation w c))"
proof -
  have a: "grows (dst w) (snd (WriteByte (dst w) x))" for x
    by (simp add: WriteByte_def Write_w_grows)
  have b: "grows (dst w) (snd (andThen (WriteByte (dst w) x) (\<lambda>d. newline d (prefix w) (indent w) (depth w))))" for x
    by (intro andThen_grows newline_grows a)
  have c: "grows (dst w) (snd (andThen (WriteByte (dst w) x) (\<lambda>d. WriteByte d 0x20)))" for x
    by (intro andThen_grows a) (simp add: WriteByte_def Write_w_grows)
  have d: "grows (dst w) (snd (andThen (newline (dst w) (prefix w) (indent w) (depth w - 1)) (\<lambda>d. WriteByte d x)))" for x
    by (intro andThen_grows newline_grows) (simp add: WriteByte_def Write_w_grows)
  show ?thesis
    unfolding punctuation_def
    by (auto intro!: put_config a b c d)
qed

lemma same_config_trans: "same_config a b \<Longrightarrow> same_config b c \<Longrightarrow> same_config a c"
  by (auto simp: same_config_def intro: grows_trans)

lemma indent_byte_config: "same_config w (snd (indent_byte w c))"
proof -
  obtain v s1 where st: "call_step ((scan w)\<lparr>bytes := bytes (scan w) + 1\<rparr>) c = (v, s1)"
    by (cases "call_step ((scan w)\<lparr>bytes := bytes (scan w) + 1\<rparr>) c") auto
  let ?w1 = "w\<lparr>scan := s1\<rparr>"
  have c1: "same_config w ?w1" by (simp add: same_config_def)
  let ?n = "put (?w1\<lparr>needIndent := False, depth := depth ?w1 + 1\<rparr>)
                        (newline (dst ?w1) (prefix ?w1) (indent ?w1) (depth ?w1 + 1))"
  have c2: "same_config w (snd ?n)"
    by (rule put_config) (simp_all add: newline_grows)
  have c3: "same_config x (snd (put x (WriteByte (dst x) c)))" for x
    by (rule put_config) (simp_all add: WriteByte_def Write_w_grows)
  have c4: "same_config w (snd (if v = scanContinue then put x (WriteByte (dst x) c) else punctuation x c))"
    if "same_config w x" for x
    using that c3 [of x] punctuation_config [of x c] by (auto intro: same_config_trans)
  obtain r w2 where n: "?n = (r, w2)" by (cases ?n) auto
  show ?thesis
    using st c1 c2 n c4 [of ?w1] c4 [of w2]
    by (cases r) (auto simp: indent_byte_def Let_def)
qed

lemma write_loop_config: "same_config w (snd (snd (write_loop w n cs)))"
proof (induction cs arbitrary: w n)
  case Nil
  show ?case by (simp add: same_config_def)
next
  case (Cons c cs)
  obtain r w' where h: "indent_byte w c = (r, w')"
    by (cases "indent_byte w c") auto
  have "same_config w w'" using indent_byte_config [of w c] h by simp
  with h Cons [of w' "n + 1"] show ?case
    by (cases r) (auto intro: same_config_trans)
qed

lemma Write_config: "same_config w (snd (Write w src))"
proof -
  obtain r n w' where h: "write_loop w 0 src = (r, n, w')"
    by (cases "write_loop w 0 src") auto
  have "same_config w w'" using write_loop_config [of w 0 src] h by simp
  with h show ?thesis
    by (cases r) (auto simp: Write_def same_config_def split: prod.splits)
qed

lemma Indent_atomic: "Indent (Buffer d) src pre ind = (Some e, w) \<Longrightarrow> w = Buffer d"
  using Write_config [of "\<lparr>dst = Buffer d, prefix = pre, indent = ind, depth = 0, scan = new_scanner,
               needIndent = False\<rparr>" src]
  by (auto simp: Indent_def Let_def same_config_def Truncate_grows split: prod.splits option.splits)

text \<open>
  C1 (atomicity). On a buffer holding \<open>d\<close>, \<open>Compact\<close>, \<open>compactWithRevert\<close> (either
  escape mode) and \<open>Indent\<close> end in one of two ways only: without error and with
  the buffer holding \<open>d\<close> followed by the appended output, or with an error and
  the buffer holding exactly \<open>d\<close> again.
\<close>

theorem atomicity:
  "((\<exists>out. compactWithRevert (Buffer d) src escape = (None, Buffer (d @ out)))
      \<or> (\<exists>e. compactWithRevert (Buffer d) src escape = (Some e, Buffer d)))
   \<and> ((\<exists>out. Compact (Buffer d) src = (None, Buffer (d @ out)))
      \<or> (\<exists>e. Compact (Buffer d) src = (Some e, Buffer d)))
   \<and> ((\<exists>out. Indent (Buffer d) src pre ind = (None, Buffer (d @ out)))
      \<or> (\<exists>e. Indent (Buffer d) src pre ind = (Some e, Buffer d)))"
proof -
  have c: "(\<exists>out. compactWithRevert (Buffer d) src esc = (None, Buffer (d @ out)))
      \<or> (\<exists>e. compactWithRevert (Buffer d) src esc = (Some e, Buffer d))" for esc
  proof (cases "compactWithRevert (Buffer d) src esc")
    case (Pair e w)
    show ?thesis
    proof (cases e)
      case None
      with Pair compact_grows [of "Buffer d" src esc] show ?thesis
        by (auto simp: compactWithRevert_def Let_def dest: grows_Buffer split: prod.splits option.splits)
    next
      case (Some x)
      with Pair compactWithRevert_atomic [of d src esc x w] show ?thesis by simp
    qed
  qed
  have i: "(\<exists>out. Indent (Buffer d) src pre ind = (None, Buffer (d @ out)))
      \<or> (\<exists>e. Indent (Buffer d) src pre ind = (Some e, Buffer d))"
  proof (cases "Indent (Buffer d) src pre ind")
    case (Pair e w)
    show ?thesis
    proof (cases e)
      case None
      with Pair Write_config [of "\<lparr>dst = Buffer d, prefix = pre, indent = ind, depth = 0,
          scan = new_scanner, needIndent = False\<rparr>" src] show ?thesis
        by (auto simp: Indent_def Let_def same_config_def dest: grows_Buffer split: prod.splits option.splits)
    next
      case (Some x)
      with Pair Indent_atomic [of d src pre ind x w] show ?thesis by simp
    qed
  qed
  from c [of escape] c [of False] i show ?thesis
    by (simp add: Compact_def)
qed

section \<open>Concrete runs\<close>

lemmas state_defs = call_step_def stateBeginValueOrEmpty_def stateBeginValue_def
  stateBeginStringOrEmpty_def stateBeginString_def stateEndValue_def stateEndTop_def
  stateInString_def stateInStringEsc_def stateInStringEscU_def stateInStringEscU1_def
  stateInStringEscU12_def stateInStringEscU123_def stateNeg_def state1_def state0_def
  stateDot_def stateDot0_def stateE_def stateESign_def stateE0_def stateError_def
  expect_def scan_error_def pushParseState_def popParseState_def isSpace_def isHex_def
  isDigit_def

lemmas indent_defs = Indent_def Write_def indent_byte_def punctuation_def put_def newline_def
  WriteByte_def WriteString_def Write_w_def andThen_def eof_def new_scanner_def Len_def

text \<open>
  C7 (empty containers). For every buffer, prefix and indent string (empty or not),
  \<open>Indent\<close> appends exactly \<^verbatim>\<open>{}\<close> for the source \<^verbatim>\<open>{}\<close> and exactly \<^verbatim>\<open>[]\<close> for the
  source \<^verbatim>\<open>[]\<close>: nothing between the opening and the closing byte.
\<close>

theorem empty_containers:
  "Indent (Buffer d) [0x7B, 0x7D] pre ind = (None, Buffer (d @ [0x7B, 0x7D]))
   \<and> Indent (Buffer d) [0x5B, 0x5D] pre ind = (None, Buffer (d @ [0x5B, 0x5D]))"
  by (simp add: indent_defs state_defs Let_def)

text \<open>
  C2 (the escape flag and the line separators). \<open>Compact\<close> runs with the escape
  flag disabled; on the JSON string holding U+2028 (E2 80 A8) and on the one
  holding U+2029 (E2 80 A9) it nevertheless appends the escaped forms
  \<^verbatim>\<open>"\u2028"\<close> and \<^verbatim>\<open>"\u2029"\<close>: the test of lines 49-50 does not consult the flag.
\<close>

theorem compact_escapes_linesep_without_flag:
  "Compact (Buffer []) [0x22, 0xE2, 0x80, 0xA8, 0x22]
     = (None, Buffer [0x22, 0x5C, 0x75, 0x32, 0x30, 0x32, 0x38, 0x22])
   \<and> Compact (Buffer []) [0x22, 0xE2, 0x80, 0xA9, 0x22]
     = (None, Buffer [0x22, 0x5C, 0x75, 0x32, 0x30, 0x32, 0x39, 0x22])"
  by code_simp

text \<open>
  C4 (streaming equivalence). The source \<^verbatim>\<open>1234\<close> written in one call reaches the
  sink as \<^verbatim>\<open>1234\<close>; written as \<^verbatim>\<open>12\<close> and then \<^verbatim>\<open>34\<close> it reaches the sink as \<^verbatim>\<open>123\<close>:
  the \<^verbatim>\<open>eof\<close> at the end of the first call ends the number. Likewise \<^verbatim>\<open>[12]\<close> in one
  call gives an indented array, and as \<^verbatim>\<open>[1\<close> then \<^verbatim>\<open>2]\<close> only \<^verbatim>\<open>[\<close>, newline, \<^verbatim>\<open>1\<close>.
\<close>

theorem chunked_writes_differ:
  "data (dst (snd (Writes (IndentWriter (Buffer []) [] []) [[0x31, 0x32, 0x33, 0x34]])))
     = [0x31, 0x32, 0x33, 0x34]
   \<and> data (dst (snd (Writes (IndentWriter (Buffer []) [] []) [[0x31, 0x32], [0x33, 0x34]])))
     = [0x31, 0x32, 0x33]
   \<and> data (dst (snd (Writes (IndentWriter (Buffer []) [] []) [[0x5B, 0x31, 0x32, 0x5D]])))
     = [0x5B, 0x0A, 0x31, 0x32, 0x0A, 0x5D]
   \<and> data (dst (snd (Writes (IndentWriter (Buffer []) [] []) [[0x5B, 0x31], [0x32, 0x5D]])))
     = [0x5B, 0x0A, 0x31]"
  by code_simp

text \<open>
  C5 (sticky error). The call \<^verbatim>\<open>Write("[")\<close> returns the syntax error "unexpected
  end of JSON input"; the next call \<^verbatim>\<open>Write("x")\<close> on the same stream returns a
  different error, and after the same first call \<^verbatim>\<open>Write("1")\<close> goes on processing:
  it sends a newline and \<^verbatim>\<open>1\<close> to the sink.
\<close>

theorem error_not_sticky_after_eof:
  "fst (Writes (IndentWriter (Buffer []) [] []) [[0x5B], [0x78]])
     = [(1, Some (SyntaxError UnexpectedEnd 1)),
        (1, Some (SyntaxError (InvalidCharacter 0x78 ''looking for beginning of value'') 2))]
   \<and> data (dst (snd (Writes (IndentWriter (Buffer []) [] []) [[0x5B]]))) = [0x5B]
   \<and> data (dst (snd (Writes (IndentWriter (Buffer []) [] []) [[0x5B], [0x31]])))
     = [0x5B, 0x0A, 0x31]"
  by code_simp

section \<open>The byte count of Write\<close>

lemma call_step_err_recorded:
  assumes "err_recorded s" and "call_step s c = (v, s')"
  shows "err_recorded s' \<and> (v = scanError \<longrightarrow> err s' \<noteq> None)"
  using assms unfolding err_recorded_def
  by (cases "step s")
     (auto simp: state_defs Let_def split: if_splits list.splits parse_state.splits)

lemma call_step_err_kept:
  "err s \<noteq> None \<Longrightarrow> err (snd (call_step s c)) \<noteq> None"
  by (cases "step s")
     (auto simp: state_defs Let_def split: if_splits list.splits parse_state.splits)

lemma eof_err_recorded:
  assumes "err_recorded s" and "eof s = (v, s')"
  shows "err_recorded s' \<and> (v = scanError \<longrightarrow> err s' \<noteq> None) \<and> (err s \<noteq> None \<longrightarrow> v = scanError \<and> s' = s)"
proof -
  obtain v1 s1 where c: "call_step s 0x20 = (v1, s1)" by (cases "call_step s 0x20") auto
  from call_step_err_recorded [OF assms(1) c] have "err_recorded s1" by simp
  with assms c show ?thesis
    by (auto simp: eof_def Let_def err_recorded_def split: if_splits)
qed

lemma put_scan: "put w r = (x, w') \<Longrightarrow> scan w' = scan w \<and> x \<noteq> Break"
  by (cases r) (auto simp: put_def split: option.splits)

lemma punctuation_scan: "punctuation w c = (x, w') \<Longrightarrow> scan w' = scan w \<and> x \<noteq> Break"
  by (auto simp: punctuation_def split: if_splits dest!: put_scan)

lemma indent_byte_scan:
  assumes "indent_byte w c = (r, w')"
  shows "scan w' = snd (call_step ((scan w)\<lparr>bytes := bytes (scan w) + 1\<rparr>) c)
         \<and> (r = Break \<longleftrightarrow> fst (call_step ((scan w)\<lparr>bytes := bytes (scan w) + 1\<rparr>) c) = scanError)"
proof -
  obtain v s1 where st: "call_step ((scan w)\<lparr>bytes := bytes (scan w) + 1\<rparr>) c = (v, s1)"
    by (cases "call_step ((scan w)\<lparr>bytes := bytes (scan w) + 1\<rparr>) c") auto
  let ?w1 = "w\<lparr>scan := s1\<rparr>"
  let ?n = "put (?w1\<lparr>needIndent := False, depth := depth ?w1 + 1\<rparr>)
                        (newline (dst ?w1) (prefix ?w1) (indent ?w1) (depth ?w1 + 1))"
  obtain x w2 where n: "?n = (x, w2)" by (cases ?n) auto
  from put_scan [OF n] have n2: "scan w2 = s1" "x \<noteq> Break" by simp_all
  have fin: "scan y = s1 \<and> r \<noteq> Break"
    if "(if v = scanContinue then put z (WriteByte (dst z) c) else punctuation z c) = (r, y)"
      and "scan z = s1" for y z
    using that by (auto split: if_splits dest!: put_scan punctuation_scan)
  show ?thesis
    using assms st n n2 fin [of ?w1 w'] fin [of w2 w']
    by (cases x) (auto simp: indent_byte_def Let_def split: if_splits)
qed

lemma write_loop_count:
  "write_loop w n cs = (r, n', w') \<Longrightarrow>
     n \<le> n' \<and> n' \<le> n + length cs \<and> (r = Continue \<longrightarrow> n' = n + length cs)
     \<and> write_loop w n (take (n' - n) cs) = (r, n', w')"
proof (induction cs arbitrary: w n)
  case Nil
  then show ?case by auto
next
  case (Cons c cs)
  obtain x w1 where h: "indent_byte w c = (x, w1)" by (cases "indent_byte w c") auto
  show ?case
  proof (cases x)
    case Continue
    with h Cons.prems have "write_loop w1 (n + 1) cs = (r, n', w')" by simp
    from Cons.IH [OF this] h Continue show ?thesis
      by (auto simp: take_Cons' Suc_diff_le)
  next
    case Break
    with h Cons.prems show ?thesis by auto
  next
    case (Return e)
    with h Cons.prems show ?thesis by auto
  qed
qed

lemma write_loop_scan:
  "write_loop w n cs = (r, n', w') \<Longrightarrow> err_recorded (scan w) \<Longrightarrow>
     err_recorded (scan w') \<and> (r = Break \<longrightarrow> err (scan w') \<noteq> None)"
proof (induction cs arbitrary: w n)
  case Nil
  then show ?case by auto
next
  case (Cons c cs)
  obtain x w1 where h: "indent_byte w c = (x, w1)" by (cases "indent_byte w c") auto
  obtain v s1 where st: "call_step ((scan w)\<lparr>bytes := bytes (scan w) + 1\<rparr>) c = (v, s1)"
    by (cases "call_step ((scan w)\<lparr>bytes := bytes (scan w) + 1\<rparr>) c") auto
  have "err_recorded ((scan w)\<lparr>bytes := bytes (scan w) + 1\<rparr>)"
    using Cons.prems(2) by (simp add: err_recorded_def)
  from call_step_err_recorded [OF this st] indent_byte_scan [OF h] st
  have k: "err_recorded (scan w1)" "x = Break \<longrightarrow> err (scan w1) \<noteq> None" by auto
  show ?case
  proof (cases x)
    case Continue
    with h Cons.prems have "write_loop w1 (n + 1) cs = (r, n', w')" by simp
    from Cons.IH [OF this k(1)] show ?thesis .
  next
    case Break
    with h Cons.prems k show ?thesis by auto
  next
    case (Return e)
    with h Cons.prems k show ?thesis by auto
  qed
qed

lemma Write_err_recorded: "err_recorded (scan w) \<Longrightarrow> err_recorded (scan (snd (Write w src)))"
proof -
  assume a: "err_recorded (scan w)"
  obtain r n w1 where l: "write_loop w 0 src = (r, n, w1)" by (cases "write_loop w 0 src") auto
  obtain v s' where e: "eof (scan w1) = (v, s')" by (cases "eof (scan w1)") auto
  from write_loop_scan [OF l a] have "err_recorded (scan w1)" by simp
  from this eof_err_recorded [OF this e] l e show ?thesis
    by (cases r) (auto simp: Write_def)
qed

lemma Writes_err_recorded:
  "err_recorded (scan w) \<Longrightarrow> err_recorded (scan (snd (Writes w ps)))"
proof (induction ps arbitrary: w)
  case Nil
  then show ?case by simp
next
  case (Cons p ps)
  from Cons.IH [OF Write_err_recorded [OF Cons.prems, of p]] show ?case
    by (auto split: prod.splits)
qed

lemma Write_count:
  assumes "err_recorded (scan w)" and "Write w src = ((n, e), w')"
  shows "(e = None \<longrightarrow> n = length src) \<and> n \<le> length src \<and> Write w (take n src) = ((n, e), w')"
proof -
  obtain r k w1 where l: "write_loop w 0 src = (r, k, w1)" by (cases "write_loop w 0 src") auto
  obtain v s' where f: "eof (scan w1) = (v, s')" by (cases "eof (scan w1)") auto
  from write_loop_count [OF l]
  have c: "k \<le> length src" "r = Continue \<longrightarrow> k = length src"
    "write_loop w 0 (take k src) = (r, k, w1)" by simp_all
  from write_loop_scan [OF l assms(1)]
  have s: "err_recorded (scan w1)" "r = Break \<longrightarrow> err (scan w1) \<noteq> None" by simp_all
  from eof_err_recorded [OF s(1) f]
  have t: "v = scanError \<longrightarrow> err s' \<noteq> None" "err (scan w1) \<noteq> None \<longrightarrow> v = scanError \<and> s' = scan w1"
    by simp_all
  have nk: "n = k" using assms(2) l f by (cases r) (auto simp: Write_def split: if_splits)
  show ?thesis
    using assms(2) l f c s t unfolding nk
    by (cases r) (auto simp: Write_def split: if_splits)
qed

lemma call_step_bytes: "bytes (snd (call_step s c)) = bytes s"
  by (cases "step s"; simp add: state_defs Let_def split: list.split parse_state.split)

lemma eof_bytes: "bytes (snd (eof s)) = bytes s"
  by (simp add: eof_def Let_def call_step_bytes)

lemma indent_byte_bytes:
  assumes "indent_byte w c = (r, w')"
  shows "bytes (scan w') = bytes (scan w) + 1"
  using indent_byte_scan [OF assms] call_step_bytes [of "(scan w)\<lparr>bytes := bytes (scan w) + 1\<rparr>" c]
  by simp

lemma write_loop_bytes:
  "write_loop w n cs = (r, n', w') \<Longrightarrow>
     n \<le> n' \<and> bytes (scan w') = bytes (scan w) + of_nat (n' - n)"
proof (induction cs arbitrary: w n)
  case Nil
  then show ?case by simp
next
  case (Cons c cs)
  obtain x w1 where h: "indent_byte w c = (x, w1)" by (cases "indent_byte w c") auto
  note b = indent_byte_bytes [OF h]
  show ?case
  proof (cases x)
    case Continue
    with h Cons.prems have "write_loop w1 (n + 1) cs = (r, n', w')" by simp
    from Cons.IH [OF this] b show ?thesis by (simp add: Suc_diff_le)
  next
    case Break
    with h Cons.prems b show ?thesis by auto
  next
    case (Return e)
    with h Cons.prems b show ?thesis by auto
  qed
qed

lemma Write_bytes:
  assumes "Write w src = ((n, e), w')"
  shows "bytes (scan w') = bytes (scan w) + of_nat n"
proof -
  obtain r k w1 where l: "write_loop w 0 src = (r, k, w1)" by (cases "write_loop w 0 src") auto
  obtain v s' where f: "eof (scan w1) = (v, s')" by (cases "eof (scan w1)") auto
  from write_loop_bytes [OF l] have b: "bytes (scan w1) = bytes (scan w) + of_nat k" by simp
  from eof_bytes [of "scan w1"] f have "bytes s' = bytes (scan w1)" by simp
  with assms l f b show ?thesis
    by (cases r) (auto simp: Write_def split: if_splits)
qed

lemma of_nat_64_inj:
  assumes "(of_nat m :: 64 word) = of_nat n" and "m < 2 ^ 64" and "n < 2 ^ 64"
  shows "m = n"
proof -
  from assms(1) have "unat (of_nat m :: 64 word) = unat (of_nat n :: 64 word)" by simp
  then have "m mod 2 ^ 64 = n mod 2 ^ 64" by (simp add: unat_of_nat)
  with assms(2,3) show ?thesis by simp
qed

text \<open>
  C9 (byte count). On every stream obtained from \<open>IndentWriter\<close> by any sequence of
  \<open>Write\<close> calls, a further \<open>Write\<close> of \<open>src\<close> that returns no error returns the
  count \<open>length src\<close>; and every call, with or without error, returns a count \<open>n\<close>
  of at most \<open>length src\<close> that is the number of bytes it consumed: the same call
  on the first \<open>n\<close> bytes alone gives the same count, error and stream state, and
  the scanner's byte counter, incremented once for each byte consumed (line 162),
  has advanced by exactly \<open>n\<close>; for a slice shorter than \<open>2 ^ 64\<close> no other count
  up to \<open>length src\<close> agrees with the counter.
\<close>

theorem write_count:
  assumes "Writes (IndentWriter sink pre ind) ps = (rs, w)" and "Write w src = ((n, e), w')"
  shows "(e = None \<longrightarrow> n = length src) \<and> n \<le> length src
       \<and> Write w (take n src) = ((n, e), w')
       \<and> bytes (scan w') = bytes (scan w) + of_nat n
       \<and> (length src < 2 ^ 64 \<longrightarrow>
            (\<forall>m \<le> length src. bytes (scan w') = bytes (scan w) + of_nat m \<longrightarrow> m = n))"
proof -
  have "err_recorded (scan (IndentWriter sink pre ind))"
    by (simp add: IndentWriter_def new_scanner_def err_recorded_def)
  from Writes_err_recorded [OF this, of ps] assms(1) have "err_recorded (scan w)" by simp
  from Write_count [OF this assms(2)]
  have a: "(e = None \<longrightarrow> n = length src) \<and> n \<le> length src
       \<and> Write w (take n src) = ((n, e), w')" .
  note b = Write_bytes [OF assms(2)]
  have "m = n" if "length src < 2 ^ 64" "m \<le> length src"
    "bytes (scan w') = bytes (scan w) + of_nat m" for m
  proof -
    from that(3) b have "(of_nat m :: 64 word) = of_nat n" by simp
    moreover from that(1,2) have "m < 2 ^ 64" by simp
    moreover from that(1) a have "n < 2 ^ 64" by simp
    ultimately show ?thesis by (rule of_nat_64_inj)
  qed
  with a b show ?thesis by blast
qed

theorem write_count_witness:
  "Writes (IndentWriter (Buffer []) [] []) [[0x31]] =
      ([(1, None)],
       \<lparr>dst = Buffer [0x31], prefix = [], indent = [], depth = 0,
        scan = \<lparr>step = StEndTop, endTop = True, parseState = [], err = None, bytes = 1\<rparr>,
        needIndent = False\<rparr>)
   \<and> fst (Write \<lparr>dst = Buffer [0x31], prefix = [], indent = [], depth = 0,
        scan = \<lparr>step = StEndTop, endTop = True, parseState = [], err = None, bytes = 1\<rparr>,
        needIndent = False\<rparr> [0x20, 0x0A]) = (length [0x20 :: byte, 0x0A], None)
   \<and> Writes (IndentWriter (Buffer []) [] []) [] = ([], IndentWriter (Buffer []) [] [])
   \<and> fst (Write (IndentWriter (Buffer []) [] []) [0x78, 0x31, 0x32])
       = (1, Some (SyntaxError (InvalidCharacter 0x78 ''looking for beginning of value'') 1))
   \<and> bytes (scan (snd (Write (IndentWriter (Buffer []) [] []) [0x78, 0x31, 0x32])))
       = bytes (scan (IndentWriter (Buffer []) [] [])) + of_nat 1
   \<and> bytes (scan (snd (Write (IndentWriter (Buffer []) [] []) [0x78, 0x31, 0x32])))
       \<noteq> bytes (scan (IndentWriter (Buffer []) [] [])) + of_nat (length [0x78 :: byte, 0x31, 0x32])"
proof -
  let ?w = "\<lparr>dst = Buffer [0x31], prefix = [], indent = [], depth = 0,
        scan = \<lparr>step = StEndTop, endTop = True, parseState = [], err = None, bytes = 1\<rparr>,
        needIndent = False\<rparr>"
  let ?f = "IndentWriter (Buffer []) [] []"
  let ?x = "[0x78, 0x31, 0x32] :: byte list"
  have a: "Writes ?f [[0x31]] = ([(1, None)], ?w)"
    by code_simp
  have b: "snd (fst (Write ?w [0x20, 0x0A])) = None"
    by code_simp
  obtain n w' where c: "Write ?w [0x20, 0x0A] = ((n, None), w')"
    using b by (metis prod.collapse)
  have a': "Writes ?f [] = ([], ?f)" by simp
  have b': "fst (Write ?f ?x)
       = (1, Some (SyntaxError (InvalidCharacter 0x78 ''looking for beginning of value'') 1))"
    by code_simp
  then have c': "Write ?f ?x
       = ((1, Some (SyntaxError (InvalidCharacter 0x78 ''looking for beginning of value'') 1)),
          snd (Write ?f ?x))"
    by (metis prod.collapse)
  have len: "length ?x < 2 ^ 64" by simp
  from write_count [OF a c] have ok: "n = length [0x20 :: byte, 0x0A]" by blast
  from write_count [OF a' c'] len
  have err: "bytes (scan (snd (Write ?f ?x))) = bytes (scan ?f) + of_nat 1"
    and uniq: "\<forall>m \<le> length ?x.
      bytes (scan (snd (Write ?f ?x))) = bytes (scan ?f) + of_nat m \<longrightarrow> m = 1"
    by blast+
  have "length ?x \<le> length ?x" "length ?x \<noteq> 1" by simp_all
  with uniq have ne: "bytes (scan (snd (Write ?f ?x))) \<noteq> bytes (scan ?f) + of_nat (length ?x)"
    by blast
  from a c ok a' b' err ne show ?thesis by (simp only: fst_conv simp_thms)
qed

section \<open>The first byte Indent appends\<close>

lemma indent_byte_leading_space:
  assumes "at_begin w" and "isSpace c"
  shows "\<exists>w'. indent_byte w c = (Continue, w') \<and> at_begin w' \<and> dst w' = dst w
           \<and> prefix w' = prefix w \<and> indent w' = indent w"
  using assms
  by (auto simp: at_begin_def indent_byte_def call_step_def stateBeginValue_def isSpace_def)

lemma stateBeginValue_codes:
  "fst (stateBeginValue s c) \<in> {scanSkipSpace, scanBeginObject, scanBeginArray, scanBeginLiteral, scanError}"
  by (simp add: stateBeginValue_def scan_error_def)

lemma stateBeginValue_skip: "fst (stateBeginValue s c) = scanSkipSpace \<Longrightarrow> isSpace c"
  by (auto simp: stateBeginValue_def scan_error_def split: if_splits)

lemma stateBeginValue_punct:
  "fst (stateBeginValue s c) \<noteq> scanError \<Longrightarrow> c \<noteq> 0x2C \<and> c \<noteq> 0x3A \<and> c \<noteq> 0x7D \<and> c \<noteq> 0x5D"
  by (auto simp: stateBeginValue_def scan_error_def isSpace_def split: if_splits)

lemma indent_byte_first:
  assumes "at_begin w" and "\<not> isSpace c" and "indent_byte w c = (r, w')" and "dst w = Buffer d"
  shows "r = Break \<or> dst w' = Buffer (d @ [c])"
proof -
  let ?s = "(scan w)\<lparr>bytes := bytes (scan w) + 1\<rparr>"
  obtain v s1 where st: "stateBeginValue ?s c = (v, s1)" by (cases "stateBeginValue ?s c") auto
  from stateBeginValue_codes [of ?s c] stateBeginValue_skip [of ?s c] assms(2) st
  have v: "v \<in> {scanBeginObject, scanBeginArray, scanBeginLiteral, scanError}" by auto
  from stateBeginValue_punct [of ?s c] st
  have p: "v \<noteq> scanError \<Longrightarrow> c \<noteq> 0x2C \<and> c \<noteq> 0x3A \<and> c \<noteq> 0x7D \<and> c \<noteq> 0x5D" by simp
  show ?thesis
    using assms st v p
    by (auto simp: at_begin_def indent_byte_def call_step_def punctuation_def put_def
        WriteByte_def Write_w_def Let_def split: if_splits)
qed

lemma write_loop_first:
  assumes "at_begin w" and "dst w = Buffer d" and "write_loop w n cs = (r, n', w')"
  shows "(dropWhile isSpace cs = [] \<and> at_begin w' \<and> r = Continue)
       \<or> (\<exists>c rest. dropWhile isSpace cs = c # rest \<and> (r = Break \<or> (\<exists>tail. dst w' = Buffer (d @ c # tail))))"
  using assms
proof (induction cs arbitrary: w n)
  case Nil
  then show ?case by auto
next
  case (Cons c cs)
  show ?case
  proof (cases "isSpace c")
    case True
    from indent_byte_leading_space [OF Cons.prems(1) True] obtain w1 where
      h: "indent_byte w c = (Continue, w1)" "at_begin w1" "dst w1 = dst w" by auto
    from h Cons.prems have "write_loop w1 (n + 1) cs = (r, n', w')" by simp
    from Cons.IH [OF h(2) _ this] h(3) Cons.prems(2) True show ?thesis by simp
  next
    case False
    obtain x w1 where h: "indent_byte w c = (x, w1)" by (cases "indent_byte w c") auto
    from indent_byte_first [OF Cons.prems(1) False h Cons.prems(2)]
    have k: "x = Break \<or> dst w1 = Buffer (d @ [c])" .
    show ?thesis
    proof (cases x)
      case Continue
      with h Cons.prems have l: "write_loop w1 (n + 1) cs = (r, n', w')" by simp
      from write_loop_config [of w1 "n + 1" cs] l have "grows (dst w1) (dst w')"
        by (simp add: same_config_def)
      with k Continue obtain out where "dst w' = Buffer ((d @ [c]) @ out)"
        by (auto dest: grows_Buffer)
      with False show ?thesis by auto
    next
      case Break
      with h Cons.prems False show ?thesis by auto
    next
      case (Return e)
      with h Cons.prems False k show ?thesis by auto
    qed
  qed
qed

text \<open>
  C10 (no leading indentation). Whenever \<open>Indent\<close> succeeds, the source has a first
  byte \<open>c\<close> that is not a space character (space, tab, carriage return, newline),
  and the bytes appended to the buffer begin with that byte \<open>c\<close>: the leading space
  characters of the source produce no output, and no newline, prefix or indent
  string is written before \<open>c\<close>.
\<close>

theorem indent_first_byte:
  assumes "Indent (Buffer d) src pre ind = (None, w)"
  shows "\<exists>c rest tail. dropWhile isSpace src = c # rest \<and> \<not> isSpace c
           \<and> w = Buffer (d @ c # tail)"
proof -
  let ?w0 = "\<lparr>dst = Buffer d, prefix = pre, indent = ind, depth = 0, scan = new_scanner,
               needIndent = False\<rparr>"
  obtain r n w1 where l: "write_loop ?w0 0 src = (r, n, w1)" by (cases "write_loop ?w0 0 src") auto
  obtain v s' where f: "eof (scan w1) = (v, s')" by (cases "eof (scan w1)") auto
  have b: "at_begin ?w0" by (simp add: at_begin_def new_scanner_def)
  have e0: "err_recorded (scan ?w0)" by (simp add: err_recorded_def new_scanner_def)
  from write_loop_scan [OF l e0]
  have s: "err_recorded (scan w1)" "r = Break \<longrightarrow> err (scan w1) \<noteq> None" by simp_all
  from eof_err_recorded [OF s(1) f]
  have t: "v = scanError \<longrightarrow> err s' \<noteq> None" "err (scan w1) \<noteq> None \<longrightarrow> v = scanError \<and> s' = scan w1"
    by simp_all
  have nb: "r \<noteq> Break" and wd: "w = dst w1" and ve: "v \<noteq> scanError"
    using assms l f s t by (cases r; auto simp: Indent_def Write_def Let_def split: if_splits)+
  from write_loop_first [OF b _ l, of d]
  consider "dropWhile isSpace src = []" "at_begin w1"
    | c rest tail where "dropWhile isSpace src = c # rest" "dst w1 = Buffer (d @ c # tail)"
    using nb by auto
  then show ?thesis
  proof cases
    case 1
    from 1(2) f have "v = scanError"
      by (auto simp: at_begin_def eof_def call_step_def stateBeginValue_def isSpace_def Let_def
          split: if_splits)
    with ve show ?thesis by simp
  next
    case 2
    from 2(1) have "\<not> isSpace c" by (metis hd_dropWhile list.sel(1) list.distinct(1))
    with 2 wd show ?thesis by auto
  qed
qed

theorem indent_first_byte_witness:
  "Indent (Buffer [0x78]) [0x20, 0x0A, 0x5B, 0x31, 0x5D] [0x50] [0x09]
     = (None, Buffer ([0x78] @ 0x5B # [0x0A, 0x50, 0x09, 0x31, 0x0A, 0x50, 0x5D]))
   \<and> dropWhile isSpace [0x20, 0x0A, 0x5B, 0x31, 0x5D] = [0x5B, 0x31, 0x5D]"
proof -
  have a: "Indent (Buffer [0x78]) [0x20, 0x0A, 0x5B, 0x31, 0x5D] [0x50] [0x09]
     = (None, Buffer [0x78, 0x5B, 0x0A, 0x50, 0x09, 0x31, 0x0A, 0x50, 0x5D])"
    by code_simp
  from indent_first_byte [OF a] a show ?thesis
    by (simp add: isSpace_def)
qed

section \<open>What compact appends\<close>

lemma and_not1_byte: "(x :: byte) AND NOT 1 = 0xA8 \<longleftrightarrow> x = 0xA8 \<or> x = 0xA9"
proof
  assume a: "x AND NOT 1 = 0xA8"
  have s: "x = (x AND NOT 1) OR (x AND 1)"
    by (metis and.right_neutral bit.conj_disj_distrib bit.disj_cancel_left)
  have "x AND 1 = 0 \<or> x AND 1 = 1"
    by (metis and_one_eq even_iff_mod_2_eq_zero odd_iff_mod_2_eq_one)
  then show "x = 0xA8 \<or> x = 0xA9"
  proof
    assume "x AND 1 = 0"
    with s a have "x = 0xA8 OR 0" by simp
    then show ?thesis by simp
  next
    assume "x AND 1 = 1"
    with s a have "x = 0xA8 OR 1" by simp
    then show ?thesis by simp
  qed
next
  assume "x = 0xA8 \<or> x = 0xA9"
  then show "x AND NOT 1 = 0xA8" by auto
qed

lemma scan_run_err_kept: "err s \<noteq> None \<Longrightarrow> err (scan_run s cs) \<noteq> None"
proof (induction cs arbitrary: s)
  case Nil
  then show ?case by simp
next
  case (Cons c cs)
  from Cons.IH [OF call_step_err_kept [OF Cons.prems, of c]] show ?case by simp
qed

lemma scan_run_append: "scan_run s (xs @ ys) = scan_run (scan_run s xs) ys"
  by (induction xs arbitrary: s) auto

lemma significant_append:
  "significant s (xs @ ys) = significant s xs @ significant (scan_run s xs) ys"
  by (induction xs arbitrary: s) auto

lemma clean_step_codes:
  "step s \<noteq> StError \<longrightarrow> err (snd (call_step s c)) = None \<longrightarrow>
     fst (call_step s c) \<noteq> scanError \<and> step (snd (call_step s c)) \<noteq> StError
     \<and> (fst (call_step s c) \<ge> scanSkipSpace \<longrightarrow> isSpace c)"
  by (cases "step s"; simp add: state_defs Let_def split: list.split parse_state.split; blast)

lemma clean_step_special_aux:
  "c = 0x3C \<or> c = 0x3E \<or> c = 0x26 \<or> c = 0xE2 \<or> c = 0x80 \<or> c = 0xA8 \<or> c = 0xA9 \<Longrightarrow>
   step s \<noteq> StError \<longrightarrow> err (snd (call_step s c)) = None \<longrightarrow>
     step s = StInString \<and> call_step s c = (scanContinue, s)"
  by (elim disjE; cases "step s"; simp add: state_defs Let_def split: list.split parse_state.split)

lemma in_string_step:
  "step s = StInString \<longrightarrow> err (snd (call_step s c)) = None \<longrightarrow> fst (call_step s c) = scanContinue"
  by (simp add: call_step_def stateInString_def scan_error_def)

lemma space_significant:
  "step s \<noteq> StError \<longrightarrow> err (snd (call_step s c)) = None \<longrightarrow> isSpace c \<longrightarrow>
     fst (call_step s c) < scanSkipSpace \<longrightarrow> step s = StInString \<and> call_step s c = (scanContinue, s)"
  by (cases "step s"; simp add: state_defs Let_def split: list.split parse_state.split; blast?)

text \<open>One round of the loop of \<open>compact\<close> on a buffer, which never fails.\<close>

lemma slice_Buffer: "flush (Buffer out) src a b = (None, Buffer (out @ slice src a b))"
  by (simp add: flush_def slice_def Write_w_def)

lemma escape_html_Buffer:
  "escape_html src esc i c start (Buffer out) =
     (if esc \<and> (c = 0x3C \<or> c = 0x3E \<or> c = 0x26)
      then (None, i + 1, Buffer (out @ slice src start i @ escaped True [c]))
      else (None, start, Buffer out))"
  by (auto simp: escape_html_def slice_Buffer andThen_def WriteString_def WriteByte_def
      Write_w_def hex_def)

lemma and_m2_byte: "(x :: byte) AND - 2 = 0xA8 \<longleftrightarrow> x = 0xA8 \<or> x = 0xA9"
  using and_not1_byte [of x] by simp

lemma escape_linesep_Buffer:
  "escape_linesep src i c start (Buffer out) =
     (if c = 0xE2 \<and> i + 2 < length src \<and> src ! (i + 1) = 0x80
         \<and> (src ! (i + 2) = 0xA8 \<or> src ! (i + 2) = 0xA9)
      then (None, i + 3, Buffer (out @ slice src start i @ escaped False [0xE2, 0x80, src ! (i + 2)]))
      else (None, start, Buffer out))"
  by (auto simp: escape_linesep_def slice_Buffer andThen_def WriteString_def WriteByte_def
      Write_w_def hex_def and_m2_byte)

lemma take2_eq: "take 2 r = [a, b] \<longleftrightarrow> 2 \<le> length r \<and> r ! 0 = a \<and> r ! 1 = b"
proof (cases r)
  case Nil
  then show ?thesis by simp
next
  case (Cons x r')
  then show ?thesis by (cases r') (auto simp: numeral_2_eq_2)
qed

lemma compact_loop_Cons_Buffer:
  assumes "src = done @ c # r" and "length done = i"
    and h: "h \<longleftrightarrow> esc \<and> (c = 0x3C \<or> c = 0x3E \<or> c = 0x26)"
    and s1: "start1 = (if h then i + 1 else start)"
    and o1: "out1 = (if h then out @ slice src start i @ escaped True [c] else out)"
    and l: "l \<longleftrightarrow> c = 0xE2 \<and> (take 2 r = [0x80, 0xA8] \<or> take 2 r = [0x80, 0xA9])"
    and s2: "start2 = (if l then i + 3 else start1)"
    and o2: "out2 = (if l then out1 @ slice src start1 i @ escaped False (c # take 2 r) else out1)"
    and st: "call_step s c = (v, s')"
  shows "compact_loop src esc i (c # r) s start (Buffer out) =
     (if v \<ge> scanSkipSpace
      then (if v = scanError then (None, s', start2, Buffer out2)
            else compact_loop src esc (i + 1) r s' (i + 1) (Buffer (out2 @ slice src start2 i)))
      else compact_loop src esc (i + 1) r s' start2 (Buffer out2))"
proof -
  have ix: "i + 2 < length src \<longleftrightarrow> 2 \<le> length r" "src ! (i + 1) = r ! 0" "src ! (i + 2) = r ! 1"
    using assms(1,2) by (auto simp: nth_append)
  have l': "(c = 0xE2 \<and> i + 2 < length src \<and> src ! (i + 1) = 0x80
         \<and> (src ! (i + 2) = 0xA8 \<or> src ! (i + 2) = 0xA9)) \<longleftrightarrow> l"
    unfolding ix take2_eq l by auto
  have t: "l \<Longrightarrow> [0xE2, 0x80, src ! (i + 2)] = c # take 2 r"
    unfolding ix l take2_eq by (cases r; cases "tl r") auto
  have H: "escape_html src esc i c start (Buffer out) = (None, start1, Buffer out1)"
    unfolding escape_html_Buffer h [symmetric] s1 o1 by simp
  have L: "escape_linesep src i c start1 (Buffer out1) = (None, start2, Buffer out2)"
    unfolding escape_linesep_Buffer l' s2 o2 using t by simp
  show ?thesis
    by (simp add: H L st slice_Buffer)
qed

lemma compact_loop_in_string:
  assumes "src = done @ c # r" and "length done = i" and "c = 0x80 \<or> c = 0xA8 \<or> c = 0xA9"
    and "call_step s c = (scanContinue, s)"
  shows "compact_loop src esc i (c # r) s start (Buffer out)
       = compact_loop src esc (i + 1) r s start (Buffer out)"
proof -
  have "compact_loop src esc i (c # r) s start (Buffer out) =
     (if scanContinue \<ge> scanSkipSpace
      then (if scanContinue = scanError then (None, s, start, Buffer out)
            else compact_loop src esc (i + 1) r s (i + 1) (Buffer (out @ slice src start i)))
      else compact_loop src esc (i + 1) r s start (Buffer out))"
    by (rule compact_loop_Cons_Buffer [OF assms(1,2) _ _ _ _ _ _ assms(4),
          where h = False and l = False and ?start1.0 = start and ?out1.0 = out])
       (use assms(3) in auto)
  then show ?thesis by (simp del: compact_loop.simps)
qed

lemma clean_first:
  assumes "err (scan_run s (c # r)) = None"
  shows "err (snd (call_step s c)) = None" and "err (scan_run (snd (call_step s c)) r) = None"
  using assms scan_run_err_kept [of "snd (call_step s c)" r]
  by (cases "err (snd (call_step s c))"; simp)+

lemma linesep_significant:
  assumes "step s = StInString" and "err (scan_run s r) = None"
    and "take 2 (significant s r) = [0x80, x]"
  shows "take 2 r = [0x80, x]"
proof (cases r)
  case Nil
  with assms(3) show ?thesis by simp
next
  case (Cons a r')
  from assms(2) Cons have ca: "err (snd (call_step s a)) = None"
    and ra: "err (scan_run (snd (call_step s a)) r') = None"
    by (simp_all add: clean_first)
  from in_string_step [of s a] assms(1) ca have va: "fst (call_step s a) = scanContinue" by simp
  with assms(3) Cons have a: "a = 0x80" by simp
  from clean_step_special_aux [of a s] a assms(1) ca have sa: "call_step s a = (scanContinue, s)"
    by simp
  show ?thesis
  proof (cases r')
    case Nil
    with assms(3) Cons va show ?thesis by simp
  next
    case (Cons b r'')
    from ra sa Cons have cb: "err (snd (call_step s b)) = None" by (simp add: clean_first)
    from in_string_step [of s b] assms(1) cb have "fst (call_step s b) = scanContinue" by simp
    with assms(3) \<open>r = a # r'\<close> Cons sa a show ?thesis by simp
  qed
qed

lemma slice_snoc:
  assumes "src = done @ c # r" and "length done = i" and "start \<le> i"
  shows "slice src start (i + 1) = slice src start i @ [c]"
proof -
  have "slice src start (i + 1) = drop start (take (i + 1) src)"
    by (simp add: slice_def drop_take)
  also have "take (i + 1) src = take i src @ [c]"
    using assms(1,2) by simp
  also have "drop start (take i src @ [c]) = drop start (take i src) @ [c]"
    using assms by simp
  finally show ?thesis by (simp add: slice_def drop_take)
qed

lemma slice_empty: "b \<le> a \<Longrightarrow> slice src a b = []"
  by (simp add: slice_def)

lemma compact_loop_char:
  assumes "src = done @ cs" and "length done = i" and "start \<le> i"
    and "err (scan_run s cs) = None" and "step s \<noteq> StError"
  shows "\<exists>start' out'. compact_loop src esc i cs s start (Buffer out)
             = (None, scan_run s cs, start', Buffer out')
           \<and> out' @ drop start' src = out @ slice src start i @ escaped esc (significant s cs)"
  using assms
proof (induction "length cs" arbitrary: cs "done" i start s out rule: less_induct)
  case less
  show ?case
  proof (cases cs)
    case Nil
    with less.prems show ?thesis by (simp add: slice_def)
  next
    case (Cons c r)
    obtain v s' where st: "call_step s c = (v, s')" by (cases "call_step s c") auto
    from less.prems(4) Cons st have cl: "err s' = None" and rr: "err (scan_run s' r) = None"
      using clean_first [of s c r] by simp_all
    from clean_step_codes [of s c] less.prems(5) cl st
    have v: "v \<noteq> scanError" and ns: "step s' \<noteq> StError" and sp: "v \<ge> scanSkipSpace \<longrightarrow> isSpace c"
      by simp_all
    have src: "src = done @ c # r" using less.prems(1) Cons by simp
    have src': "src = (done @ [c]) @ r" using src by simp
    have len': "length (done @ [c]) = i + 1" using less.prems(2) by simp
    define h where "h \<longleftrightarrow> esc \<and> (c = 0x3C \<or> c = 0x3E \<or> c = 0x26)"
    define start1 where "start1 = (if h then i + 1 else start)"
    define out1 where "out1 = (if h then out @ slice src start i @ escaped True [c] else out)"
    define l where "l \<longleftrightarrow> c = 0xE2 \<and> (take 2 r = [0x80, 0xA8] \<or> take 2 r = [0x80, 0xA9])"
    define start2 where "start2 = (if l then i + 3 else start1)"
    define out2 where
      "out2 = (if l then out1 @ slice src start1 i @ escaped False (c # take 2 r) else out1)"
    note unf = compact_loop_Cons_Buffer [OF src less.prems(2) h_def start1_def out1_def l_def
        start2_def out2_def st]
    have special: "step s = StInString \<and> v = scanContinue \<and> s' = s" if "h \<or> c = 0xE2"
      using clean_step_special_aux [of c s] that less.prems(5) cl st by (auto simp: h_def)
    consider (L) "l" | (H) "h" | (P) "\<not> l" "\<not> h" by blast
    then show ?thesis
    proof cases
      case L
      then have c: "c = 0xE2" by (simp add: l_def)
      from L have nh: "\<not> h" by (auto simp: h_def l_def)
      from special c have ins: "step s = StInString" "v = scanContinue" "s' = s" by simp_all
      from L obtain x r2 where r: "r = 0x80 # x # r2" and x: "x = 0xA8 \<or> x = 0xA9"
        unfolding l_def by (cases r; cases "tl r") auto
      have s80: "call_step s 0x80 = (scanContinue, s)"
        using clean_step_special_aux [of "0x80" s] rr r ins less.prems(5) clean_first(1) [of s "0x80" "x # r2"]
        by simp
      have rr2: "err (scan_run s (x # r2)) = None"
        using rr r ins s80 by simp
      have sx: "call_step s x = (scanContinue, s)"
        using clean_step_special_aux [of x s] x rr2 less.prems(5) clean_first(1) [of s x r2]
        by auto
      have rr3: "err (scan_run s r2) = None" using rr2 sx by simp
      have o2: "out2 = out @ slice src start i @ escaped False [0xE2, 0x80, x]" and s2: "start2 = i + 3"
        using L nh c r by (simp_all add: out2_def out1_def start1_def start2_def)
      have src1: "src = (done @ [c]) @ 0x80 # x # r2" using src r by simp
      have src2: "src = (done @ [c, 0x80]) @ x # r2" using src r by simp
      have src3: "src = (done @ [c, 0x80, x]) @ r2" using src r by simp
      have len1: "length (done @ [c]) = i + 1" using less.prems(2) by simp
      have len2: "length (done @ [c, 0x80]) = i + 1 + 1" using less.prems(2) by simp
      have len3: "length (done @ [c, 0x80, x]) = i + 1 + 1 + 1" using less.prems(2) by simp
      have it1: "compact_loop src esc i cs s start (Buffer out)
          = compact_loop src esc (i + 1) r s (i + 3) (Buffer out2)"
        using unf ins s2 Cons by (simp del: compact_loop.simps)
      have it2: "compact_loop src esc (i + 1) r s (i + 3) (Buffer out2)
          = compact_loop src esc (i + 1 + 1) (x # r2) s (i + 3) (Buffer out2)"
        unfolding r by (rule compact_loop_in_string [OF src1 len1 _ s80]) simp
      have it3: "compact_loop src esc (i + 1 + 1) (x # r2) s (i + 3) (Buffer out2)
          = compact_loop src esc (i + 1 + 1 + 1) r2 s (i + 3) (Buffer out2)"
        by (rule compact_loop_in_string [OF src2 len2 _ sx]) (use x in simp)
      have lt: "length r2 < length cs" using Cons r by simp
      have le3: "i + 3 \<le> i + 1 + 1 + 1" by simp
      from less.hyps [OF lt src3 len3 le3 rr3 less.prems(5), where out = out2]
      obtain start' out' where
        ih: "compact_loop src esc (i + 1 + 1 + 1) r2 s (i + 3) (Buffer out2)
               = (None, scan_run s r2, start', Buffer out')"
          "out' @ drop start' src
             = out2 @ slice src (i + 3) (i + 1 + 1 + 1) @ escaped esc (significant s r2)"
        by auto
      have run: "scan_run s cs = scan_run s r2" using Cons r st ins s80 sx c by simp
      have sig: "significant s cs = 0xE2 # 0x80 # x # significant s r2"
        using Cons r st ins s80 sx c by simp
      have esc: "escaped esc (0xE2 # 0x80 # x # significant s r2)
          = escaped False [0xE2, 0x80, x] @ escaped esc (significant s r2)"
        using x by auto
      show ?thesis
        using it1 it2 it3 ih run sig esc o2 by (simp add: slice_empty)
    next
      case H
      from special H have ins: "step s = StInString" "v = scanContinue" "s' = s" by simp_all
      from H have nl: "\<not> l" by (auto simp: h_def l_def)
      have o2: "out2 = out @ slice src start i @ escaped True [c]" and s2: "start2 = i + 1"
        using H nl by (simp_all add: out2_def out1_def start1_def start2_def)
      have it1: "compact_loop src esc i cs s start (Buffer out)
          = compact_loop src esc (i + 1) r s (i + 1) (Buffer out2)"
        using unf ins s2 Cons by (simp del: compact_loop.simps)
      have "length r < length cs" using Cons by simp
      from rr ins have rr': "err (scan_run s r) = None" by simp
      from less.hyps [OF \<open>length r < length cs\<close> src' len' order_refl rr' less.prems(5),
          where out = out2]
      obtain start' out' where
        ih: "compact_loop src esc (i + 1) r s (i + 1) (Buffer out2)
               = (None, scan_run s r, start', Buffer out')"
          "out' @ drop start' src = out2 @ slice src (i + 1) (i + 1) @ escaped esc (significant s r)"
        by auto
      have run: "scan_run s cs = scan_run s r" using Cons st ins by simp
      have sig: "significant s cs = c # significant s r" using Cons st ins by simp
      have esc: "escaped esc (c # significant s r) = escaped True [c] @ escaped esc (significant s r)"
        using H by (auto simp: h_def)
      show ?thesis
        using it1 ih run sig esc o2 by (simp add: slice_empty)
    next
      case P
      have o2: "out2 = out" and s2: "start2 = start"
        using P by (simp_all add: out2_def out1_def start1_def start2_def)
      have lr: "length r < length cs" using Cons by simp
      show ?thesis
      proof (cases "v \<ge> scanSkipSpace")
        case True
        have it1: "compact_loop src esc i cs s start (Buffer out)
            = compact_loop src esc (i + 1) r s' (i + 1) (Buffer (out @ slice src start i))"
          using unf True v o2 s2 Cons by (simp del: compact_loop.simps)
        from less.hyps [OF lr src' len' order_refl rr ns, where out = "out @ slice src start i"]
        obtain start' out' where
          ih: "compact_loop src esc (i + 1) r s' (i + 1) (Buffer (out @ slice src start i))
                 = (None, scan_run s' r, start', Buffer out')"
            "out' @ drop start' src
               = (out @ slice src start i) @ slice src (i + 1) (i + 1) @ escaped esc (significant s' r)"
          by auto
        have run: "scan_run s cs = scan_run s' r" using Cons st by simp
        have sig: "significant s cs = significant s' r" using Cons st True by simp
        show ?thesis
          using it1 ih run sig by (simp add: slice_empty)
      next
        case False
        have it1: "compact_loop src esc i cs s start (Buffer out)
            = compact_loop src esc (i + 1) r s' start (Buffer out)"
          using unf False o2 s2 Cons by (simp del: compact_loop.simps)
        have le': "start \<le> i + 1" using less.prems(3) by simp
        from less.hyps [OF lr src' len' le' rr ns, where out = out]
        obtain start' out' where
          ih: "compact_loop src esc (i + 1) r s' start (Buffer out)
                 = (None, scan_run s' r, start', Buffer out')"
            "out' @ drop start' src
               = out @ slice src start (i + 1) @ escaped esc (significant s' r)"
          by auto
        have run: "scan_run s cs = scan_run s' r" using Cons st by simp
        have sig: "significant s cs = c # significant s' r" using Cons st False by simp
        have nol: "\<not> (c = 0xE2 \<and> (take 2 (significant s' r) = [0x80, 0xA8]
            \<or> take 2 (significant s' r) = [0x80, 0xA9]))"
        proof
          assume a: "c = 0xE2 \<and> (take 2 (significant s' r) = [0x80, 0xA8]
            \<or> take 2 (significant s' r) = [0x80, 0xA9])"
          with special have ins: "step s = StInString" "s' = s" by simp_all
          from a linesep_significant [of s r] ins rr
          have "take 2 r = [0x80, 0xA8] \<or> take 2 r = [0x80, 0xA9]" by auto
          with a P(1) show False by (simp add: l_def)
        qed
        have esc: "escaped esc (c # significant s' r) = c # escaped esc (significant s' r)"
          using P(2) nol by (auto simp: h_def)
        show ?thesis
          using it1 ih run sig esc slice_snoc [OF src less.prems(2,3)] by simp
      qed
    qed
  qed
qed

lemma compact_loop_err:
  assumes "err_recorded s" and "err (scan_run s cs) \<noteq> None"
  shows "err (fst (snd (compact_loop src esc i cs s start (Buffer out)))) \<noteq> None
         \<and> fst (compact_loop src esc i cs s start (Buffer out)) = None"
  using assms
proof (induction cs arbitrary: s i start out)
  case Nil
  then show ?case by simp
next
  case (Cons c r)
  obtain v s' where st: "call_step s c = (v, s')" by (cases "call_step s c") auto
  from call_step_err_recorded [OF Cons.prems(1) st]
  have r: "err_recorded s'" "v = scanError \<longrightarrow> err s' \<noteq> None" by simp_all
  from Cons.prems(2) st have e: "err (scan_run s' r) \<noteq> None" by simp
  obtain s1 o1 where h: "escape_html src esc i c start (Buffer out) = (None, s1, Buffer o1)"
    by (cases "esc \<and> (c = 0x3C \<or> c = 0x3E \<or> c = 0x26)") (auto simp: escape_html_Buffer)
  obtain s2 o2 where l: "escape_linesep src i c s1 (Buffer o1) = (None, s2, Buffer o2)"
    by (cases "c = 0xE2 \<and> i + 2 < length src \<and> src ! (i + 1) = 0x80
         \<and> (src ! (i + 2) = 0xA8 \<or> src ! (i + 2) = 0xA9)") (auto simp: escape_linesep_Buffer)
  show ?case
    using st h l r Cons.IH [OF r(1) e] by (simp add: slice_Buffer)
qed

lemma scan_run_err_recorded: "err_recorded s \<Longrightarrow> err_recorded (scan_run s cs)"
proof (induction cs arbitrary: s)
  case Nil
  then show ?case by simp
next
  case (Cons c cs)
  obtain v s' where st: "call_step s c = (v, s')" by (cases "call_step s c") auto
  from call_step_err_recorded [OF Cons.prems st] have "err_recorded s'" by simp
  from Cons.IH [OF this] st show ?case by simp
qed

lemma eof_clean:
  "err s \<noteq> None \<Longrightarrow> eof s = (scanError, s)"
  by (simp add: eof_def)

lemma compact_char:
  assumes "compact (Buffer d) src esc = (None, w)"
  shows "err (scan_run new_scanner src) = None
         \<and> fst (eof (scan_run new_scanner src)) \<noteq> scanError
         \<and> w = Buffer (d @ escaped esc (significant new_scanner src))"
proof (cases "err (scan_run new_scanner src) = None")
  case True
  have ns: "step new_scanner \<noteq> StError" by (simp add: new_scanner_def)
  from compact_loop_char [of src "[]" src 0 0 new_scanner esc d, OF _ _ _ True ns]
  obtain start' out' where
    l: "compact_loop src esc 0 src new_scanner 0 (Buffer d)
         = (None, scan_run new_scanner src, start', Buffer out')"
    and o: "out' @ drop start' src = d @ escaped esc (significant new_scanner src)"
    by (auto simp: slice_def)
  obtain v s' where f: "eof (scan_run new_scanner src) = (v, s')"
    by (cases "eof (scan_run new_scanner src)") auto
  have ve: "v \<noteq> scanError"
  proof
    assume "v = scanError"
    moreover have "err_recorded (scan_run new_scanner src)"
      by (rule scan_run_err_recorded) (simp add: err_recorded_def new_scanner_def)
    ultimately have "err s' \<noteq> None"
      using eof_err_recorded [OF _ f] by simp
    with assms l f \<open>v = scanError\<close> show False by (simp add: compact_def)
  qed
  have "w = Buffer (out' @ drop start' src)"
    using assms l f ve by (auto simp: compact_def Write_w_def split: if_splits)
  with o True f ve show ?thesis by simp
next
  case False
  have "err_recorded new_scanner" by (simp add: err_recorded_def new_scanner_def)
  from compact_loop_err [OF this False, of src esc 0 0 d]
  obtain sf st wf where l: "compact_loop src esc 0 src new_scanner 0 (Buffer d) = (None, sf, st, wf)"
    and e: "err sf \<noteq> None"
    by (cases "compact_loop src esc 0 src new_scanner 0 (Buffer d)") auto
  from assms l eof_clean [OF e] e show ?thesis by (auto simp: compact_def)
qed

section \<open>The escaped form holds no raw character\<close>

lemma escaped_html_free:
  "0x3C \<notin> set (escaped True xs) \<and> 0x3E \<notin> set (escaped True xs) \<and> 0x26 \<notin> set (escaped True xs)"
  by (induction "True" xs rule: escaped.induct) (auto dest: in_set_dropD)

lemma escaped_head_80:
  assumes "escaped esc cs = 0x80 # t"
  shows "\<exists>cs'. cs = 0x80 # cs' \<and> t = escaped esc cs'"
proof (cases cs)
  case Nil
  with assms show ?thesis by simp
next
  case (Cons a cs')
  with assms show ?thesis by (auto split: if_splits)
qed

lemma escaped_head_A:
  assumes "escaped esc cs = x # t" and "x = 0xA8 \<or> x = 0xA9"
  shows "\<exists>cs'. cs = x # cs'"
proof (cases cs)
  case Nil
  with assms show ?thesis by simp
next
  case (Cons a cs')
  with assms show ?thesis by (auto split: if_splits)
qed

lemma escaped_take2:
  assumes "take 2 (escaped esc cs) = [0x80, x]" and "x = 0xA8 \<or> x = 0xA9"
  shows "take 2 cs = [0x80, x]"
proof -
  from assms(1) obtain t where e: "escaped esc cs = 0x80 # x # t"
    by (cases "escaped esc cs"; cases "tl (escaped esc cs)") auto
  from escaped_head_80 [OF e] obtain cs' where c: "cs = 0x80 # cs'" "x # t = escaped esc cs'"
    by auto
  from escaped_head_A [OF c(2) [symmetric] assms(2)] c(1) show ?thesis by auto
qed

lemma has_linesep_skip: "a \<noteq> 0xE2 \<Longrightarrow> has_linesep (a # r) = has_linesep r"
  by simp

lemma escaped_no_linesep: "\<not> has_linesep (escaped esc xs)"
proof (induction esc xs rule: escaped.induct)
  case (1 esc)
  show ?case by simp
next
  case (2 esc c cs)
  consider (h1) "esc \<and> c = 0x3C" | (h2) "\<not> (esc \<and> c = 0x3C)" "esc \<and> c = 0x3E"
    | (h3) "\<not> (esc \<and> c = 0x3C)" "\<not> (esc \<and> c = 0x3E)" "esc \<and> c = 0x26"
    | (l1) "\<not> (esc \<and> c = 0x3C)" "\<not> (esc \<and> c = 0x3E)" "\<not> (esc \<and> c = 0x26)"
        "c = 0xE2 \<and> take 2 cs = [0x80, 0xA8]"
    | (l2) "\<not> (esc \<and> c = 0x3C)" "\<not> (esc \<and> c = 0x3E)" "\<not> (esc \<and> c = 0x26)"
        "\<not> (c = 0xE2 \<and> take 2 cs = [0x80, 0xA8])" "c = 0xE2 \<and> take 2 cs = [0x80, 0xA9]"
    | (p) "\<not> (esc \<and> c = 0x3C)" "\<not> (esc \<and> c = 0x3E)" "\<not> (esc \<and> c = 0x26)"
        "\<not> (c = 0xE2 \<and> take 2 cs = [0x80, 0xA8])" "\<not> (c = 0xE2 \<and> take 2 cs = [0x80, 0xA9])"
    by blast
  then show ?case
  proof cases
    case h1
    with 2(1) show ?thesis by simp
  next
    case h2
    with 2(2) show ?thesis by simp
  next
    case h3
    with 2(3) show ?thesis by simp
  next
    case l1
    with 2(4) show ?thesis by simp
  next
    case l2
    with 2(5) show ?thesis by simp
  next
    case p
    from 2(6) [OF p] have ih: "\<not> has_linesep (escaped esc cs)" .
    have "\<not> (c = 0xE2 \<and> (take 2 (escaped esc cs) = [0x80, 0xA8]
        \<or> take 2 (escaped esc cs) = [0x80, 0xA9]))"
      using p(4,5) escaped_take2 [of esc cs "0xA8"] escaped_take2 [of esc cs "0xA9"] by auto
    with ih p show ?thesis by auto
  qed
qed

lemma escaped_raw_free: "raw_free (escaped True xs)"
  using escaped_html_free [of xs] escaped_no_linesep [of True xs] by (simp add: raw_free_def)

lemma escaped_last:
  "xs \<noteq> [] \<Longrightarrow> \<not> isSpace (last xs) \<Longrightarrow>
     escaped esc xs \<noteq> [] \<and> \<not> isSpace (last (escaped esc xs))"
proof (induction esc xs rule: escaped.induct)
  case (1 esc)
  then show ?case by simp
next
  case (2 esc c cs)
  have d: "drop 2 cs \<noteq> [] \<Longrightarrow> last (drop 2 cs) = last cs \<and> cs \<noteq> []"
    by (cases cs) auto
  show ?case
  proof (cases "cs = []")
    case True
    with 2(7,8) show ?thesis by (simp add: isSpace_def)
  next
    case False
    with 2(8) have lc: "\<not> isSpace (last cs)" by simp
    show ?thesis
    proof (cases "drop 2 cs = []")
      case True
      with False lc 2(1,2,3,6) show ?thesis by (auto simp: isSpace_def)
    next
      case nd: False
      with d lc have "\<not> isSpace (last (drop 2 cs))" by simp
      with False lc nd 2(1,2,3,4,5,6) show ?thesis by auto
    qed
  qed
qed

lemma significant_nonspace:
  assumes "err (scan_run s cs) = None" and "step s \<noteq> StError"
  shows "filter (\<lambda>c. \<not> isSpace c) (significant s cs) = filter (\<lambda>c. \<not> isSpace c) cs"
  using assms
proof (induction cs arbitrary: s)
  case Nil
  show ?case by simp
next
  case (Cons c r)
  from clean_first [OF Cons.prems(1)]
  have cl: "err (snd (call_step s c)) = None" and rr: "err (scan_run (snd (call_step s c)) r) = None" .
  from clean_step_codes [of s c] Cons.prems(2) cl
  have ns: "step (snd (call_step s c)) \<noteq> StError"
    and sp: "fst (call_step s c) \<ge> scanSkipSpace \<longrightarrow> isSpace c" by simp_all
  from Cons.IH [OF rr ns] sp show ?case by simp
qed

text \<open>
  C3 (escaping enabled). When the compact transform with escaping enabled
  succeeds on \<open>src\<close>, it appends the significant bytes of \<open>src\<close> in their escaped
  form: every \<^verbatim>\<open><\<close>, \<^verbatim>\<open>>\<close>, \<^verbatim>\<open>&\<close>, U+2028 and U+2029 rewritten, every other byte
  unchanged. The appended bytes hold no raw \<^verbatim>\<open><\<close>, \<^verbatim>\<open>>\<close>, \<^verbatim>\<open>&\<close> and no raw E2 80 A8
  or E2 80 A9; and the significant bytes are all of \<open>src\<close> but space characters.
\<close>

theorem compact_escape_enabled:
  assumes "compactWithRevert (Buffer d) src True = (None, w)"
  shows "w = Buffer (d @ escaped True (significant new_scanner src))
         \<and> raw_free (escaped True (significant new_scanner src))
         \<and> filter (\<lambda>c. \<not> isSpace c) (significant new_scanner src)
             = filter (\<lambda>c. \<not> isSpace c) src"
proof -
  from assms have c: "compact (Buffer d) src True = (None, w)"
    by (auto simp: compactWithRevert_def Let_def split: prod.splits option.splits)
  from compact_char [OF c]
  have cl: "err (scan_run new_scanner src) = None"
    and w: "w = Buffer (d @ escaped True (significant new_scanner src))" by simp_all
  have "step new_scanner \<noteq> StError" by (simp add: new_scanner_def)
  from significant_nonspace [OF cl this] w escaped_raw_free show ?thesis by simp
qed

theorem compact_escape_enabled_witness:
  "compactWithRevert (Buffer [0x78]) [0x20, 0x5B, 0x22, 0x3C, 0x20, 0x3E, 0x26, 0xE2, 0x80, 0xA8, 0xE2, 0x80, 0xA9, 0x22, 0x20, 0x5D, 0x0A] True
     = (None, Buffer ([0x78] @ [0x5B, 0x22, 0x5C, 0x75, 0x30, 0x30, 0x33, 0x63, 0x20,
          0x5C, 0x75, 0x30, 0x30, 0x33, 0x65, 0x5C, 0x75, 0x30, 0x30, 0x32, 0x36,
          0x5C, 0x75, 0x32, 0x30, 0x32, 0x38, 0x5C, 0x75, 0x32, 0x30, 0x32, 0x39, 0x22, 0x5D]))
   \<and> raw_free [0x5B, 0x22, 0x5C, 0x75, 0x30, 0x30, 0x33, 0x63, 0x20,
          0x5C, 0x75, 0x30, 0x30, 0x33, 0x65, 0x5C, 0x75, 0x30, 0x30, 0x32, 0x36,
          0x5C, 0x75, 0x32, 0x30, 0x32, 0x38, 0x5C, 0x75, 0x32, 0x30, 0x32, 0x39, 0x22, 0x5D]"
proof -
  let ?src = "[0x20, 0x5B, 0x22, 0x3C, 0x20, 0x3E, 0x26, 0xE2, 0x80, 0xA8, 0xE2, 0x80, 0xA9, 0x22, 0x20, 0x5D, 0x0A] :: byte list"
  let ?out = "[0x5B, 0x22, 0x5C, 0x75, 0x30, 0x30, 0x33, 0x63, 0x20,
          0x5C, 0x75, 0x30, 0x30, 0x33, 0x65, 0x5C, 0x75, 0x30, 0x30, 0x32, 0x36,
          0x5C, 0x75, 0x32, 0x30, 0x32, 0x38, 0x5C, 0x75, 0x32, 0x30, 0x32, 0x39, 0x22, 0x5D] :: byte list"
  have a: "compactWithRevert (Buffer [0x78]) ?src True = (None, Buffer ([0x78] @ ?out))"
    by code_simp
  have e: "escaped True (significant new_scanner ?src) = ?out"
    by code_simp
  have r: "raw_free (escaped True (significant new_scanner ?src))"
    by (rule compact_escape_enabled [OF a, THEN conjunct2, THEN conjunct1])
  from a r [unfolded e] show ?thesis by (rule conjI)
qed

section \<open>What Write sends to a buffer\<close>

lemma write_indents_Buffer:
  "write_indents (Buffer d) ind k = (None, Buffer (d @ concat (replicate k ind)))"
  by (induction k arbitrary: d) (simp_all add: WriteString_def Write_w_def)

lemma newline_Buffer: "newline (Buffer d) pre ind k = (None, Buffer (d @ nl pre ind k))"
  by (simp add: newline_def nl_def andThen_def WriteByte_def WriteString_def Write_w_def
      write_indents_Buffer)

lemma indent_byte_Buffer:
  assumes "dst w = Buffer d"
    and "call_step ((scan w)\<lparr>bytes := bytes (scan w) + 1\<rparr>) c = (v, s1)"
  shows "indent_byte w c =
     (if v = scanSkipSpace then (Continue, w\<lparr>scan := s1\<rparr>)
      else if v = scanError then (Break, w\<lparr>scan := s1\<rparr>)
      else (case emit (prefix w) (indent w) (depth w) (needIndent w) v c of
              (e, dep', need') \<Rightarrow>
                (Continue, w\<lparr>dst := Buffer (d @ e), depth := dep', scan := s1,
                              needIndent := need'\<rparr>)))"
  using assms
  by (simp add: indent_byte_def Let_def put_def newline_Buffer punctuation_def emit_def
      WriteByte_def Write_w_def andThen_def)

section \<open>Classification codes and the bytes that get them\<close>

lemma top_ok_step: "top_ok s \<longrightarrow> top_ok (snd (call_step s c))"
  unfolding top_ok_def
  by (cases "step s"; simp add: state_defs Let_def split: list.split parse_state.split; blast?)

lemma code_range: "0 \<le> fst (call_step s c) \<and> fst (call_step s c) \<le> 11"
  by (cases "step s"; simp add: state_defs Let_def split: list.split parse_state.split)

lemma open_codes:
  "step s \<noteq> StError \<longrightarrow> err (snd (call_step s c)) = None \<longrightarrow>
     (fst (call_step s c) = scanBeginObject \<longrightarrow> c = 0x7B \<and> step (snd (call_step s c)) = StBeginStringOrEmpty)
   \<and> (fst (call_step s c) = scanBeginArray \<longrightarrow> c = 0x5B \<and> step (snd (call_step s c)) = StBeginValueOrEmpty)
   \<and> (fst (call_step s c) = scanBeginLiteral \<longrightarrow>
         c \<noteq> 0x7B \<and> c \<noteq> 0x5B \<and> c \<noteq> 0x2C \<and> c \<noteq> 0x3A \<and> c \<noteq> 0x7D \<and> c \<noteq> 0x5D)"
  by (cases "step s"; simp add: state_defs Let_def split: list.split parse_state.split; auto?)

lemma separator_codes:
  "step s \<noteq> StError \<longrightarrow> err (snd (call_step s c)) = None \<longrightarrow>
     (fst (call_step s c) = scanObjectKey \<longrightarrow> c = 0x3A \<and> step (snd (call_step s c)) = StBeginValue)
   \<and> (fst (call_step s c) = scanObjectValue \<longrightarrow> c = 0x2C \<and> step (snd (call_step s c)) = StBeginString)
   \<and> (fst (call_step s c) = scanArrayValue \<longrightarrow> c = 0x2C \<and> step (snd (call_step s c)) = StBeginValue)"
  by (cases "step s"; simp add: state_defs Let_def split: list.split parse_state.split; blast?)

lemma close_codes:
  "step s \<noteq> StError \<longrightarrow> err (snd (call_step s c)) = None \<longrightarrow>
     (fst (call_step s c) = scanEndObject \<longrightarrow> c = 0x7D \<and> (or_empty s \<or> parseState s \<noteq> []))
   \<and> (fst (call_step s c) = scanEndArray \<longrightarrow> c = 0x5D \<and> (or_empty s \<or> parseState s \<noteq> []))
   \<and> (fst (call_step s c) = scanEnd \<longrightarrow> isSpace c \<and> \<not> or_empty s)"
  unfolding or_empty_def
  by (cases "step s"; simp add: state_defs Let_def split: list.split parse_state.split; blast?)

lemma or_empty_codes:
  "or_empty s \<longrightarrow> err (snd (call_step s c)) = None \<longrightarrow>
     fst (call_step s c) \<noteq> scanContinue
   \<and> (fst (call_step s c) = scanSkipSpace \<longrightarrow> step (snd (call_step s c)) = step s)"
  unfolding or_empty_def
  by (cases "step s"; simp add: state_defs Let_def split: list.split parse_state.split; blast?)

lemma bracket_codes:
  "step s \<noteq> StError \<longrightarrow> err (snd (call_step s c)) = None \<longrightarrow>
     (c = 0x7B \<longrightarrow> fst (call_step s c) = scanContinue \<or> fst (call_step s c) = scanBeginObject)
   \<and> (c = 0x5B \<longrightarrow> fst (call_step s c) = scanContinue \<or> fst (call_step s c) = scanBeginArray)"
  by (cases "step s"; simp add: state_defs Let_def split: list.split parse_state.split; auto?)

section \<open>The last byte of the output\<close>

lemma bump_simps [simp]:
  "top_ok (s\<lparr>bytes := b\<rparr>) = top_ok s" "or_empty (s\<lparr>bytes := b\<rparr>) = or_empty s"
  by (simp_all add: top_ok_def or_empty_def)

lemma eof_unfinished:
  assumes "top_ok s" and "err s = None"
    and "step s = StBeginValue \<or> step s = StBeginString \<or> step s = StBeginStringOrEmpty
       \<or> step s = StBeginValueOrEmpty \<or> step s = StInString
       \<or> (step s = StEndValue \<and> parseState s \<noteq> [])"
  shows "fst (eof s) = scanError"
  using assms
  by (auto simp: eof_def top_ok_def Let_def state_defs split: list.splits)

lemma skip_post:
  "step s \<noteq> StError \<longrightarrow> err (snd (call_step s c)) = None \<longrightarrow>
     fst (call_step s c) = scanSkipSpace \<longrightarrow>
     step (snd (call_step s c)) = StBeginValue \<or> step (snd (call_step s c)) = StBeginString
     \<or> step (snd (call_step s c)) = StBeginStringOrEmpty
     \<or> step (snd (call_step s c)) = StBeginValueOrEmpty
     \<or> (step (snd (call_step s c)) = StEndValue \<and> parseState (snd (call_step s c)) \<noteq> [])"
  by (cases "step s"; simp add: state_defs Let_def split: list.split parse_state.split; blast?)

lemma newline_not_significant:
  "step s \<noteq> StError \<longrightarrow> err (snd (call_step s 0x0A)) = None \<longrightarrow>
     fst (call_step s 0x0A) \<ge> scanSkipSpace"
  by (cases "step s"; simp add: state_defs Let_def split: list.split parse_state.split)

lemma comma_colon_codes:
  "step s \<noteq> StError \<longrightarrow> err (snd (call_step s c)) = None \<longrightarrow> c = 0x2C \<or> c = 0x3A \<longrightarrow>
     fst (call_step s c) = scanContinue \<or> fst (call_step s c) = scanObjectKey
     \<or> fst (call_step s c) = scanObjectValue \<or> fst (call_step s c) = scanArrayValue"
  by (cases "step s"; simp add: state_defs Let_def split: list.split parse_state.split; auto?)

lemma emit_last:
  assumes "c = 0x2C \<or> c = 0x3A \<longrightarrow> v = scanContinue"
  shows "\<exists>out. fst (emit pre ind dep need v c) = out @ [c]"
  using assms by (auto simp: emit_def Let_def)

lemma write_loop_snoc:
  "write_loop w n (xs @ [c]) =
     (case write_loop w n xs of
        (Continue, n', w') \<Rightarrow> (case indent_byte w' c of (r, w'') \<Rightarrow> (r, n' + 1, w''))
      | (r, n', w') \<Rightarrow> (r, n', w'))"
proof (induction xs arbitrary: w n)
  case Nil
  show ?case by (auto split: prod.splits outcome.splits)
next
  case (Cons x xs)
  obtain r w1 where h: "indent_byte w x = (r, w1)" by (cases "indent_byte w x") auto
  show ?case
  proof (cases r)
    case Continue
    with h Cons [of w1 "n + 1"] show ?thesis by simp
  next
    case Break
    with h show ?thesis by simp
  next
    case (Return e)
    with h show ?thesis by simp
  qed
qed

lemma write_loop_err_kept:
  "err (scan w) \<noteq> None \<Longrightarrow> write_loop w n cs = (r, n', w') \<Longrightarrow> err (scan w') \<noteq> None"
proof (induction cs arbitrary: w n)
  case Nil
  then show ?case by simp
next
  case (Cons c cs)
  obtain x w1 where h: "indent_byte w c = (x, w1)" by (cases "indent_byte w c") auto
  have "err ((scan w)\<lparr>bytes := bytes (scan w) + 1\<rparr>) \<noteq> None" using Cons.prems(1) by simp
  from call_step_err_kept [OF this, of c] indent_byte_scan [OF h]
  have e: "err (scan w1) \<noteq> None" by simp
  show ?case
  proof (cases x)
    case Continue
    with h Cons.prems have "write_loop w1 (n + 1) cs = (r, n', w')" by simp
    from Cons.IH [OF e this] show ?thesis .
  next
    case Break
    with h Cons.prems e show ?thesis by auto
  next
    case (Return e')
    with h Cons.prems e show ?thesis by auto
  qed
qed

lemma emit_need:
  assumes "snd (snd (emit pre ind dep need v c))"
  shows "v \<noteq> scanContinue \<and> (c = 0x7B \<or> c = 0x5B)
       \<or> (v = scanEndObject \<or> v = scanEndArray) \<and> c \<noteq> 0x7D \<and> c \<noteq> 0x5D"
  using assms by (auto simp: emit_def Let_def split: if_splits)

lemma indent_byte_tidy:
  assumes "tidy w" and "dst w = Buffer d" and "indent_byte w c = (Continue, w1)"
    and "err (scan w1) = None"
  shows "tidy w1 \<and> prefix w1 = prefix w \<and> indent w1 = indent w
       \<and> (\<exists>e. dst w1 = Buffer (d @ e))"
proof -
  let ?s = "(scan w)\<lparr>bytes := bytes (scan w) + 1\<rparr>"
  obtain v s1 where st: "call_step ?s c = (v, s1)" by (cases "call_step ?s c") auto
  from indent_byte_scan [OF assms(3)] st have s1: "scan w1 = s1" by simp
  with assms(4) have cl: "err (snd (call_step ?s c)) = None" using st by simp
  from assms(1) have ns: "step ?s \<noteq> StError" and tk: "top_ok ?s"
    and nd: "needIndent w \<longrightarrow> or_empty ?s" by (simp_all add: tidy_def)
  from top_ok_step [of ?s c] tk st have tk1: "top_ok s1" by simp
  from clean_step_codes [of ?s c] ns cl st have ns1: "step s1 \<noteq> StError" "v \<noteq> scanError" by simp_all
  note ib = indent_byte_Buffer [OF assms(2) st]
  show ?thesis
  proof (cases "v = scanSkipSpace")
    case True
    with ib assms(3) have w1: "w1 = w\<lparr>scan := s1\<rparr>" by simp
    from or_empty_codes [of ?s c] cl st True have "or_empty ?s \<longrightarrow> or_empty s1"
      by (auto simp: or_empty_def)
    with w1 nd tk1 ns1 assms(2,4) s1 show ?thesis by (auto simp: tidy_def)
  next
    case False
    obtain e dep' need' where em: "emit (prefix w) (indent w) (depth w) (needIndent w) v c = (e, dep', need')"
      by (cases "emit (prefix w) (indent w) (depth w) (needIndent w) v c") auto
    with ib assms(3) False ns1
    have w1: "w1 = w\<lparr>dst := Buffer (d @ e), depth := dep', scan := s1, needIndent := need'\<rparr>"
      by simp
    have "or_empty s1" if "need'"
    proof -
      from emit_need [of "prefix w" "indent w" "depth w" "needIndent w" v c] em that
      consider "v \<noteq> scanContinue" "c = 0x7B \<or> c = 0x5B"
        | "v = scanEndObject \<or> v = scanEndArray" "c \<noteq> 0x7D" "c \<noteq> 0x5D" by auto
      then show ?thesis
      proof cases
        case 1
        from bracket_codes [of ?s c] open_codes [of ?s c] ns cl st 1 show ?thesis
          by (auto simp: or_empty_def)
      next
        case 2
        from close_codes [of ?s c] ns cl st 2 show ?thesis by auto
      qed
    qed
    with w1 tk1 ns1 assms(4) s1 show ?thesis by (auto simp: tidy_def)
  qed
qed

lemma write_loop_tidy:
  assumes "tidy w" and "dst w = Buffer d" and "write_loop w n cs = (Continue, n', w')"
    and "err (scan w') = None"
  shows "tidy w' \<and> prefix w' = prefix w \<and> indent w' = indent w \<and> (\<exists>e. dst w' = Buffer (d @ e))"
  using assms
proof (induction cs arbitrary: w n d)
  case Nil
  then show ?case by simp
next
  case (Cons c cs)
  obtain x w1 where h: "indent_byte w c = (x, w1)" by (cases "indent_byte w c") auto
  with Cons.prems(3) have x: "x = Continue" and l: "write_loop w1 (n + 1) cs = (Continue, n', w')"
    by (cases x; simp)+
  have e1: "err (scan w1) = None"
    using write_loop_err_kept [OF _ l] Cons.prems(4) by (cases "err (scan w1)") auto
  from indent_byte_tidy [OF Cons.prems(1,2) h [unfolded x] e1]
  obtain e where t: "tidy w1" "prefix w1 = prefix w" "indent w1 = indent w" "dst w1 = Buffer (d @ e)"
    by auto
  from Cons.IH [OF t(1) t(4) l Cons.prems(4)] t show ?case by auto
qed

text \<open>A successful \<open>Indent\<close>, taken apart at the last byte of the source.\<close>

lemma Indent_last_round:
  assumes "Indent (Buffer d) (xs @ [c]) pre ind = (None, w)"
  shows "\<exists>w1 w2 d1 v s1. tidy w1 \<and> dst w1 = Buffer (d @ d1) \<and> prefix w1 = pre \<and> indent w1 = ind
      \<and> call_step ((scan w1)\<lparr>bytes := bytes (scan w1) + 1\<rparr>) c = (v, s1)
      \<and> indent_byte w1 c = (Continue, w2) \<and> scan w2 = s1 \<and> err s1 = None
      \<and> fst (eof s1) \<noteq> scanError \<and> w = dst w2"
proof -
  let ?w0 = "\<lparr>dst = Buffer d, prefix = pre, indent = ind, depth = 0, scan = new_scanner,
               needIndent = False\<rparr>"
  obtain r n w2 where l: "write_loop ?w0 0 (xs @ [c]) = (r, n, w2)"
    by (cases "write_loop ?w0 0 (xs @ [c])") auto
  obtain ve s' where f: "eof (scan w2) = (ve, s')" by (cases "eof (scan w2)") auto
  have e0: "err_recorded (scan ?w0)" by (simp add: err_recorded_def new_scanner_def)
  have t0: "tidy ?w0" by (simp add: tidy_def top_ok_def new_scanner_def)
  from write_loop_scan [OF l e0]
  have s: "err_recorded (scan w2)" "r = Break \<longrightarrow> err (scan w2) \<noteq> None" by simp_all
  from eof_err_recorded [OF s(1) f]
  have t: "ve = scanError \<longrightarrow> err s' \<noteq> None" "err (scan w2) \<noteq> None \<longrightarrow> ve = scanError \<and> s' = scan w2"
    by simp_all
  have nb: "r \<noteq> Break" and wd: "w = dst w2" and ve: "ve \<noteq> scanError"
    using assms l f s t by (cases r; auto simp: Indent_def Write_def Let_def split: if_splits)+
  have nr: "r = Continue"
  proof (cases r)
    case (Return e)
    with assms l show ?thesis by (auto simp: Indent_def Write_def Let_def)
  qed (use nb in auto)
  have e2: "err (scan w2) = None" using t(2) ve by (cases "err (scan w2)") auto
  obtain r1 n1 w1 where l1: "write_loop ?w0 0 xs = (r1, n1, w1)"
    by (cases "write_loop ?w0 0 xs") auto
  from l l1 nr have r1: "r1 = Continue" and ib: "indent_byte w1 c = (Continue, w2)"
    unfolding write_loop_snoc by (cases r1; auto split: prod.splits)+
  obtain v s1 where st: "call_step ((scan w1)\<lparr>bytes := bytes (scan w1) + 1\<rparr>) c = (v, s1)"
    by (cases "call_step ((scan w1)\<lparr>bytes := bytes (scan w1) + 1\<rparr>) c") auto
  from indent_byte_scan [OF ib] st have s1: "scan w2 = s1" by simp
  have e1: "err (scan w1) = None"
  proof (cases "err (scan w1)")
    case (Some x)
    then have "err ((scan w1)\<lparr>bytes := bytes (scan w1) + 1\<rparr>) \<noteq> None" by simp
    from call_step_err_kept [OF this, of c] st s1 e2 show ?thesis by simp
  qed
  from write_loop_tidy [OF t0 _ l1 [unfolded r1] e1, of d]
  obtain d1 where "tidy w1" "prefix w1 = pre" "indent w1 = ind" "dst w1 = Buffer (d @ d1)" by auto
  with st ib s1 e2 f ve wd show ?thesis by auto
qed

lemma Indent_trailing_newline:
  assumes "Indent (Buffer d) (xs @ [0x0A]) pre ind = (None, w)"
  shows "\<exists>out. w = Buffer (d @ out @ [0x0A])"
proof -
  from Indent_last_round [OF assms] obtain w1 w2 d1 v s1 where
    t: "tidy w1" and d1: "dst w1 = Buffer (d @ d1)"
    and st: "call_step ((scan w1)\<lparr>bytes := bytes (scan w1) + 1\<rparr>) 0x0A = (v, s1)"
    and ib: "indent_byte w1 0x0A = (Continue, w2)" and cl: "err s1 = None"
    and ef: "fst (eof s1) \<noteq> scanError" and w: "w = dst w2" by blast
  let ?s = "(scan w1)\<lparr>bytes := bytes (scan w1) + 1\<rparr>"
  from t have ns: "step ?s \<noteq> StError" and tk: "top_ok ?s"
    and nd: "needIndent w1 \<longrightarrow> or_empty ?s" by (simp_all add: tidy_def)
  from top_ok_step [of ?s "0x0A"] tk st have tk1: "top_ok s1" by simp
  from newline_not_significant [of ?s] ns cl st have v9: "v \<ge> scanSkipSpace" by simp
  from clean_step_codes [of ?s "0x0A"] ns cl st have ve: "v \<noteq> scanError" by simp
  have vs: "v \<noteq> scanSkipSpace"
  proof
    assume "v = scanSkipSpace"
    with skip_post [of ?s "0x0A"] ns cl st eof_unfinished [OF tk1 cl] ef show False by auto
  qed
  from code_range [of ?s "0x0A"] st v9 ve vs have v: "v = scanEnd" by simp
  from close_codes [of ?s "0x0A"] ns cl st v nd have "\<not> needIndent w1" by auto
  then have "emit (prefix w1) (indent w1) (depth w1) (needIndent w1) v 0x0A
      = ([0x0A], depth w1, False)"
    using v by (simp add: emit_def)
  with indent_byte_Buffer [OF d1 st] ib v have "dst w2 = Buffer ((d @ d1) @ [0x0A])" by auto
  with w show ?thesis by auto
qed

lemma Indent_no_trailing_space:
  assumes "Indent (Buffer d) (xs @ [c]) pre ind = (None, w)" and "\<not> isSpace c"
  shows "\<exists>out. w = Buffer (d @ out @ [c])"
proof -
  from Indent_last_round [OF assms(1)] obtain w1 w2 d1 v s1 where
    t: "tidy w1" and d1: "dst w1 = Buffer (d @ d1)"
    and st: "call_step ((scan w1)\<lparr>bytes := bytes (scan w1) + 1\<rparr>) c = (v, s1)"
    and ib: "indent_byte w1 c = (Continue, w2)" and cl: "err s1 = None"
    and ef: "fst (eof s1) \<noteq> scanError" and w: "w = dst w2" by blast
  let ?s = "(scan w1)\<lparr>bytes := bytes (scan w1) + 1\<rparr>"
  from t have ns: "step ?s \<noteq> StError" and tk: "top_ok ?s" by (simp_all add: tidy_def)
  from top_ok_step [of ?s c] tk st have tk1: "top_ok s1" by simp
  from clean_step_codes [of ?s c] ns cl st assms(2)
  have v: "v \<noteq> scanError" "v \<noteq> scanSkipSpace" by auto
  have sep: "v = scanContinue" if "c = 0x2C \<or> c = 0x3A"
  proof (rule ccontr)
    assume "v \<noteq> scanContinue"
    with comma_colon_codes [of ?s c] ns cl st that
    have "v = scanObjectKey \<or> v = scanObjectValue \<or> v = scanArrayValue" by simp
    with separator_codes [of ?s c] ns cl st
    have "step s1 = StBeginValue \<or> step s1 = StBeginString" by auto
    with eof_unfinished [OF tk1 cl] ef show False by auto
  qed
  from emit_last [of c v "prefix w1" "indent w1" "depth w1" "needIndent w1"] sep
  obtain out where "fst (emit (prefix w1) (indent w1) (depth w1) (needIndent w1) v c) = out @ [c]"
    by auto
  with indent_byte_Buffer [OF d1 st] ib v have "dst w2 = Buffer ((d @ d1) @ out @ [c])"
    by (auto split: prod.splits)
  with w show ?thesis by (metis append.assoc)
qed

lemma significant_last:
  assumes "err (scan_run s cs) = None" and "step s \<noteq> StError" and "top_ok s"
    and "fst (eof (scan_run s cs)) \<noteq> scanError"
  shows "(step s = StInString \<or> step s = StBeginValue \<longrightarrow> significant s cs \<noteq> [])
       \<and> (significant s cs \<noteq> [] \<longrightarrow> \<not> isSpace (last (significant s cs)))"
  using assms
proof (induction cs arbitrary: s)
  case Nil
  from Nil.prems(1) have "err s = None" by simp
  from eof_unfinished [OF Nil.prems(3) this] Nil.prems(4) show ?case by auto
next
  case (Cons c r)
  let ?v = "fst (call_step s c)" and ?s' = "snd (call_step s c)"
  from clean_first [OF Cons.prems(1)]
  have cl: "err ?s' = None" and rr: "err (scan_run ?s' r) = None" .
  from clean_step_codes [of s c] Cons.prems(2) cl
  have ns: "step ?s' \<noteq> StError" and sp: "?v \<ge> scanSkipSpace \<longrightarrow> isSpace c" by simp_all
  from top_ok_step [of s c] Cons.prems(3) have tk: "top_ok ?s'" by simp
  from Cons.prems(4) have ef: "fst (eof (scan_run ?s' r)) \<noteq> scanError" by simp
  note ih = Cons.IH [OF rr ns tk ef]
  show ?case
  proof (cases "?v \<ge> scanSkipSpace")
    case True
    have "step ?s' = step s" if "step s = StInString \<or> step s = StBeginValue"
      using that True cl in_string_step [of s c]
      by (auto simp: call_step_def stateBeginValue_def scan_error_def split: if_splits)
    with ih True show ?thesis by auto
  next
    case False
    show ?thesis
    proof (cases "significant ?s' r = []")
      case True
      have "\<not> isSpace c"
      proof
        assume "isSpace c"
        with space_significant [of s c] Cons.prems(2) cl False
        have "step s = StInString" "call_step s c = (scanContinue, s)" by simp_all
        with ih True show False by simp
      qed
      with True False show ?thesis by simp
    next
      case nonempty: False
      with ih False show ?thesis by simp
    qed
  qed
qed

lemma Compact_no_trailing_space:
  assumes "compact (Buffer d) src esc = (None, w)"
  shows "\<exists>out b. w = Buffer (d @ out @ [b]) \<and> \<not> isSpace b"
proof -
  from compact_char [OF assms]
  have cl: "err (scan_run new_scanner src) = None"
    and ef: "fst (eof (scan_run new_scanner src)) \<noteq> scanError"
    and w: "w = Buffer (d @ escaped esc (significant new_scanner src))" by simp_all
  have "step new_scanner \<noteq> StError" "top_ok new_scanner" "step new_scanner = StBeginValue"
    by (simp_all add: new_scanner_def top_ok_def)
  from significant_last [OF cl this(1,2) ef] this(3)
  have "significant new_scanner src \<noteq> []" "\<not> isSpace (last (significant new_scanner src))"
    by simp_all
  from escaped_last [OF this, of esc]
  have "escaped esc (significant new_scanner src) \<noteq> []"
    "\<not> isSpace (last (escaped esc (significant new_scanner src)))" by simp_all
  then obtain out b where "escaped esc (significant new_scanner src) = out @ [b]" "\<not> isSpace b"
    by (metis append_butlast_last_id)
  with w show ?thesis by auto
qed

text \<open>
  C8 (trailing whitespace), as the code has it. When \<open>Indent\<close> succeeds on a source
  ending in a newline, what it appends ends in that newline; when it succeeds on a
  source whose last byte \<open>c\<close> is no space character, what it appends ends in \<open>c\<close>.
  What \<open>Compact\<close> appends never ends in a space character, whatever the source
  ends in: trailing space characters are elided like the others.
\<close>

theorem trailing_whitespace:
  "(Indent (Buffer d) (xs @ [0x0A]) pre ind = (None, w1)
      \<longrightarrow> (\<exists>out. w1 = Buffer (d @ out @ [0x0A])))
   \<and> (Indent (Buffer d) (ys @ [c]) pre ind = (None, w2) \<and> \<not> isSpace c
      \<longrightarrow> (\<exists>out. w2 = Buffer (d @ out @ [c])))
   \<and> (Compact (Buffer d) src = (None, w3)
      \<longrightarrow> (\<exists>out b. w3 = Buffer (d @ out @ [b]) \<and> \<not> isSpace b))"
proof (intro conjI impI)
  assume "Indent (Buffer d) (xs @ [0x0A]) pre ind = (None, w1)"
  then show "\<exists>out. w1 = Buffer (d @ out @ [0x0A])" by (rule Indent_trailing_newline)
next
  assume "Indent (Buffer d) (ys @ [c]) pre ind = (None, w2) \<and> \<not> isSpace c"
  then show "\<exists>out. w2 = Buffer (d @ out @ [c])" using Indent_no_trailing_space by blast
next
  assume "Compact (Buffer d) src = (None, w3)"
  then have "compact (Buffer d) src False = (None, w3)"
    by (auto simp: Compact_def compactWithRevert_def Let_def split: prod.splits option.splits)
  then show "\<exists>out b. w3 = Buffer (d @ out @ [b]) \<and> \<not> isSpace b"
    by (rule Compact_no_trailing_space)
qed

theorem trailing_whitespace_witness:
  "Indent (Buffer []) ([0x7B, 0x7D] @ [0x0A]) [] [] = (None, Buffer ([] @ [0x7B, 0x7D] @ [0x0A]))
   \<and> Indent (Buffer []) ([0x7B] @ [0x7D]) [] [] = (None, Buffer ([] @ [0x7B] @ [0x7D]))
   \<and> \<not> isSpace 0x7D
   \<and> Compact (Buffer []) [0x7B, 0x7D, 0x0A] = (None, Buffer ([] @ [0x7B] @ [0x7D]))"
proof -
  have h1: "Indent (Buffer []) ([0x7B, 0x7D] @ [0x0A]) [] [] = (None, Buffer [0x7B, 0x7D, 0x0A])"
    by code_simp
  have h2: "Indent (Buffer []) ([0x7B] @ [0x7D]) [] [] = (None, Buffer [0x7B, 0x7D])"
    by code_simp
  have h3: "Compact (Buffer []) [0x7B, 0x7D, 0x0A] = (None, Buffer [0x7B, 0x7D])"
    by code_simp
  have s: "\<not> isSpace 0x7D" by (simp add: isSpace_def)
  note t = trailing_whitespace [of "[]" "[0x7B, 0x7D]" "[]" "[]" "Buffer [0x7B, 0x7D, 0x0A]"
      "[0x7B]" "0x7D" "Buffer [0x7B, 0x7D]" "[0x7B, 0x7D, 0x0A]" "Buffer [0x7B, 0x7D]"]
  from t h1 have "\<exists>out. Buffer [0x7B, 0x7D, 0x0A] = Buffer ([] @ out @ [0x0A])" by blast
  moreover from t h2 s have "\<exists>out. Buffer [0x7B, 0x7D] = Buffer ([] @ out @ [0x7D])" by blast
  moreover from t h3 have "\<exists>out b. Buffer [0x7B, 0x7D] = Buffer ([] @ out @ [b]) \<and> \<not> isSpace b"
    by blast
  ultimately show ?thesis using h1 h2 h3 s by simp
qed

text \<open>
  C8 as the spec states it fails for \<open>Compact\<close>: the source \<^verbatim>\<open>{}\<close> followed by a
  newline is compacted to \<^verbatim>\<open>{}\<close> without the newline (and \<open>Indent\<close> keeps it).
\<close>

theorem compact_drops_trailing_newline:
  "Compact (Buffer []) [0x7B, 0x7D, 0x0A] = (None, Buffer [0x7B, 0x7D])
   \<and> Indent (Buffer []) [0x7B, 0x7D, 0x0A] [] [] = (None, Buffer [0x7B, 0x7D, 0x0A])"
  by code_simp

section \<open>Scanners in step\<close>

lemma call_step_bump_fields:
  "fst (call_step (s\<lparr>bytes := b\<rparr>) c) = fst (call_step s c)
   \<and> step (snd (call_step (s\<lparr>bytes := b\<rparr>) c)) = step (snd (call_step s c))
   \<and> parseState (snd (call_step (s\<lparr>bytes := b\<rparr>) c)) = parseState (snd (call_step s c))
   \<and> endTop (snd (call_step (s\<lparr>bytes := b\<rparr>) c)) = endTop (snd (call_step s c))
   \<and> (err (snd (call_step (s\<lparr>bytes := b\<rparr>) c)) = None \<longleftrightarrow> err (snd (call_step s c)) = None)"
  by (cases "step s"; simp add: state_defs Let_def split: list.split parse_state.split; blast?)

lemma ender_step:
  "ender s \<longrightarrow> \<not> numcont c \<longrightarrow> call_step s c = call_step (s\<lparr>step := StEndValue\<rparr>) c"
  unfolding ender_def numcont_def
  by (cases "step s"; simp add: state_defs Let_def split: list.split parse_state.split; blast?)

lemma absorb_step:
  "absorbs T \<longrightarrow> isSpace c \<longrightarrow> call_step T c = (scanSkipSpace, settle T)"
  unfolding absorbs_def settle_def ender_def or_empty_def
  by (cases "step T"; simp add: state_defs Let_def split: list.split parse_state.split; blast?)

lemma skip_settle:
  "step s \<noteq> StError \<longrightarrow> err (snd (call_step s c)) = None \<longrightarrow>
     fst (call_step s c) = scanSkipSpace \<longrightarrow> snd (call_step s c) = settle s \<and> absorbs s"
  unfolding absorbs_def settle_def ender_def or_empty_def
  by (cases "step s"; simp add: state_defs Let_def split: list.split parse_state.split; blast?)

lemma end_value_clean:
  "step s = StEndValue \<longrightarrow> err (snd (call_step s c)) = None \<longrightarrow> \<not> numcont c"
  unfolding numcont_def
  by (simp add: state_defs Let_def split: list.split parse_state.split; auto?)

lemma closer_codes:
  "step s \<noteq> StError \<longrightarrow> err (snd (call_step s c)) = None \<longrightarrow>
     (c = 0x7D \<longrightarrow> fst (call_step s c) = scanContinue \<or> fst (call_step s c) = scanEndObject)
   \<and> (c = 0x5D \<longrightarrow> fst (call_step s c) = scanContinue \<or> fst (call_step s c) = scanEndArray)"
  by (cases "step s"; simp add: state_defs Let_def split: list.split parse_state.split; auto?)

lemma close_states:
  "step s \<noteq> StError \<longrightarrow> err (snd (call_step s c)) = None \<longrightarrow>
     fst (call_step s c) = scanEndObject \<or> fst (call_step s c) = scanEndArray \<longrightarrow>
     ender s \<or> or_empty s"
  unfolding ender_def or_empty_def
  by (cases "step s"; simp add: state_defs Let_def split: list.split parse_state.split; blast?)

lemma unb_eq:
  "unb T = unb S \<longleftrightarrow> step T = step S \<and> endTop T = endTop S \<and> parseState T = parseState S
     \<and> err T = err S"
  by (cases S; cases T) (auto simp: unb_def)

lemma settle_fields [simp]:
  "err (settle s) = err s" "parseState (settle s) = parseState s" "endTop (settle s) = endTop s"
  "bytes (settle s) = bytes s"
  by (simp_all add: settle_def)

lemma settle_idem [simp]: "settle (settle s) = settle s"
  by (simp add: settle_def ender_def)

lemma step_eqv:
  assumes "eqv S T" and "err (snd (call_step S c)) = None"
  shows "fst (call_step T c) = fst (call_step S c) \<and> eqv (snd (call_step S c)) (snd (call_step T c))"
proof -
  from assms(1) have "T = S\<lparr>bytes := bytes T\<rparr>"
    by (cases S; cases T) (auto simp: eqv_def unb_def)
  then obtain b where T: "T = S\<lparr>bytes := b\<rparr>" ..
  from call_step_bump_fields [where s = S and b = b and c = c] assms(2) show ?thesis
    unfolding T eqv_def unb_eq by simp
qed

lemma settle_step: "\<not> numcont c \<Longrightarrow> call_step (settle s) c = call_step s c"
  using ender_step [of s c] by (simp add: settle_def)

lemma step_near:
  assumes "near S T" and "err (snd (call_step S c)) = None"
    and "numcont c \<longrightarrow> step T = step S"
  shows "fst (call_step T c) = fst (call_step S c) \<and> eqv (snd (call_step S c)) (snd (call_step T c))"
proof (cases "numcont c")
  case True
  with assms(3) have st: "step T = step S" by simp
  from assms(1) have "unb (settle T) = unb (settle S)" "err S = None" by (simp_all add: near_def)
  with st have "eqv S T" unfolding unb_eq eqv_def by simp
  from step_eqv [OF this assms(2)] show ?thesis .
next
  case False
  from assms(1) have e: "eqv (settle S) (settle T)" by (simp add: near_def eqv_def)
  from assms(2) False have "err (snd (call_step (settle S) c)) = None" by (simp add: settle_step)
  from step_eqv [OF e this] False show ?thesis by (simp add: settle_step)
qed

lemma absorbs_settle: "absorbs T \<Longrightarrow> absorbs (settle T)"
  by (auto simp: absorbs_def settle_def ender_def or_empty_def)

lemma absorb_run:
  assumes "absorbs T" and "\<forall>c\<in>set ws. isSpace c"
  shows "significant T ws = [] \<and> scan_run T ws = (if ws = [] then T else settle T)"
  using assms
proof (induction ws arbitrary: T)
  case Nil
  show ?case by simp
next
  case (Cons c ws)
  from absorb_step [of T c] Cons.prems have st: "call_step T c = (scanSkipSpace, settle T)" by simp
  from Cons.IH [OF absorbs_settle [OF Cons.prems(1)]] Cons.prems(2) st show ?case by simp
qed

lemma nl_spaces:
  assumes "\<forall>b\<in>set pre. isSpace b" and "\<forall>b\<in>set ind. isSpace b"
  shows "\<forall>b\<in>set (nl pre ind k). isSpace b"
  using assms by (auto simp: nl_def isSpace_def)

lemma emit_shape:
  assumes "\<forall>b\<in>set pre. isSpace b" and "\<forall>b\<in>set ind. isSpace b"
  shows "\<exists>p q t. fst (emit pre ind dep need v c) = p @ q @ [c] @ t
     \<and> (\<forall>b\<in>set p. isSpace b) \<and> (\<forall>b\<in>set q. isSpace b) \<and> (\<forall>b\<in>set t. isSpace b)
     \<and> (p \<noteq> [] \<longrightarrow> need \<and> v \<noteq> scanEndObject \<and> v \<noteq> scanEndArray)
     \<and> (q \<noteq> [] \<longrightarrow> v \<noteq> scanContinue \<and> (c = 0x7D \<or> c = 0x5D))
     \<and> (t \<noteq> [] \<longrightarrow> v \<noteq> scanContinue \<and> (c = 0x2C \<or> c = 0x3A))"
proof -
  let ?first = "need \<and> v \<noteq> scanEndObject \<and> v \<noteq> scanEndArray"
  let ?p = "if ?first then nl pre ind (dep + 1) else []"
  let ?dep1 = "if ?first then dep + 1 else dep"
  let ?need1 = "need \<and> \<not> ?first"
  let ?q = "if v \<noteq> scanContinue \<and> c \<noteq> 0x7B \<and> c \<noteq> 0x5B \<and> c \<noteq> 0x2C \<and> c \<noteq> 0x3A
              \<and> (c = 0x7D \<or> c = 0x5D) \<and> \<not> ?need1 then nl pre ind (?dep1 - 1) else []"
  let ?t = "if v \<noteq> scanContinue \<and> c \<noteq> 0x7B \<and> c \<noteq> 0x5B \<and> c = 0x2C then nl pre ind ?dep1
            else if v \<noteq> scanContinue \<and> c \<noteq> 0x7B \<and> c \<noteq> 0x5B \<and> c = 0x3A then [0x20] else []"
  have e: "fst (emit pre ind dep need v c) = ?p @ ?q @ [c] @ ?t"
    by (simp add: emit_def Let_def)
  have sp: "\<forall>b\<in>set ?p. isSpace b" "\<forall>b\<in>set ?q. isSpace b" "\<forall>b\<in>set ?t. isSpace b"
    using nl_spaces [OF assms] by (auto simp: isSpace_def)
  have c: "?p \<noteq> [] \<longrightarrow> need \<and> v \<noteq> scanEndObject \<and> v \<noteq> scanEndArray"
    "?q \<noteq> [] \<longrightarrow> v \<noteq> scanContinue \<and> (c = 0x7D \<or> c = 0x5D)"
    "?t \<noteq> [] \<longrightarrow> v \<noteq> scanContinue \<and> (c = 0x2C \<or> c = 0x3A)"
    by (auto split: if_splits)
  from e sp c show ?thesis by blast
qed

lemma near_fields:
  assumes "near S T"
  shows "err T = None" and "err S = None" and "parseState T = parseState S"
    and "step (settle T) = step (settle S)"
proof -
  from assms have u: "unb (settle T) = unb (settle S)" and e: "err S = None"
    by (simp_all add: near_def)
  from u [unfolded unb_eq] e show "err T = None" "err S = None" "parseState T = parseState S"
    "step (settle T) = step (settle S)" by simp_all
qed

lemma near_ender: "near S T \<Longrightarrow> ender T = ender S"
  by (drule near_fields(4)) (auto simp: settle_def ender_def split: if_splits)

lemma near_settle_right: "near S T \<Longrightarrow> near S (settle T)"
  by (simp add: near_def)

text \<open>
  One byte of the source, seen by the scanner \<open>S\<close> of \<open>Write\<close>, against the bytes that
  \<open>Write\<close> sends out for it, seen by a scanner \<open>T\<close> that reads the output.
\<close>

lemma sim_byte:
  assumes lg: "lag S T" and need: "need \<longrightarrow> or_empty S" and ns: "step S \<noteq> StError"
    and cl: "err (snd (call_step S c)) = None"
    and v: "fst (call_step S c) = v" and nsk: "v \<noteq> scanSkipSpace"
    and sp: "\<forall>b\<in>set pre. isSpace b" "\<forall>b\<in>set ind. isSpace b"
  shows "eqv (snd (call_step S c)) (scan_run T (fst (emit pre ind dep need v c)))
       \<and> significant T (fst (emit pre ind dep need v c)) = (if v < scanSkipSpace then [c] else [])"
proof -
  from emit_shape [OF sp, of dep need v c] obtain p q t where
    e: "fst (emit pre ind dep need v c) = p @ q @ [c] @ t"
    and sps: "\<forall>b\<in>set p. isSpace b" "\<forall>b\<in>set q. isSpace b" "\<forall>b\<in>set t. isSpace b"
    and cp: "p \<noteq> [] \<longrightarrow> need \<and> v \<noteq> scanEndObject \<and> v \<noteq> scanEndArray"
    and cq: "q \<noteq> [] \<longrightarrow> v \<noteq> scanContinue \<and> (c = 0x7D \<or> c = 0x5D)"
    and ct: "t \<noteq> [] \<longrightarrow> v \<noteq> scanContinue \<and> (c = 0x2C \<or> c = 0x3A)"
    by blast
  from lg have nr: "near S T"
    and ls: "step T = step S \<or> (step S = StEndValue \<and> parseState S \<noteq> [])"
    by (simp_all add: lag_def)
  note nf = near_fields [OF nr]
  \<comment> \<open>the newline owed after an opening byte\<close>
  have p: "significant T p = [] \<and> scan_run T p = T"
  proof (cases "p = []")
    case True
    then show ?thesis by simp
  next
    case False
    with cp need have oe: "or_empty S" by simp
    with ls have "step T = step S" by (auto simp: or_empty_def)
    with oe nf(1) have ab: "absorbs T" and ne: "\<not> ender T"
      by (auto simp: absorbs_def or_empty_def ender_def)
    from absorb_run [OF ab sps(1)] ne show ?thesis by (simp add: settle_def)
  qed
  \<comment> \<open>the newline before a closing byte\<close>
  have q: "significant T q = [] \<and> scan_run T q = (if q = [] then T else settle T)"
  proof (cases "q = []")
    case True
    then show ?thesis by simp
  next
    case False
    with cq have vc: "v \<noteq> scanContinue" and cc: "c = 0x7D \<or> c = 0x5D" by simp_all
    from closer_codes [of S c] ns cl v vc cc
    have ve: "v = scanEndObject \<or> v = scanEndArray" by auto
    from close_states [of S c] ns cl v ve have es: "ender S \<or> or_empty S" by blast
    from close_codes [of S c] ns cl v ve have st: "or_empty S \<or> parseState S \<noteq> []" by auto
    have ab: "absorbs T"
    proof (cases "or_empty S")
      case True
      with ls have "step T = step S" by (auto simp: or_empty_def)
      with True nf(1) show ?thesis by (auto simp: absorbs_def or_empty_def)
    next
      case False
      with es st have "ender S" "parseState S \<noteq> []" by simp_all
      with near_ender [OF nr] nf(1,3) show ?thesis by (simp add: absorbs_def)
    qed
    from absorb_run [OF ab sps(2)] show ?thesis by simp
  qed
  define T2 where "T2 = scan_run T q"
  have n2: "near S T2" using q nr near_settle_right [OF nr] by (simp add: T2_def)
  have nc: "numcont c \<longrightarrow> step T2 = step S"
  proof (cases "q = []")
    case True
    with q have t2: "T2 = T" by (simp add: T2_def)
    show ?thesis
    proof (cases "step T = step S")
      case True
      with t2 show ?thesis by simp
    next
      case False
      with ls have "step S = StEndValue" by simp
      with end_value_clean [of S c] cl show ?thesis by simp
    qed
  next
    case False
    with cq have "c = 0x7D \<or> c = 0x5D" by simp
    then show ?thesis by (auto simp: numcont_def isDigit_def)
  qed
  from step_near [OF n2 cl nc] v
  have c3: "fst (call_step T2 c) = v" and e3: "eqv (snd (call_step S c)) (snd (call_step T2 c))"
    by simp_all
  define T3 where "T3 = snd (call_step T2 c)"
  \<comment> \<open>the newline after a comma, the space after a colon\<close>
  have t: "significant T3 t = [] \<and> scan_run T3 t = T3"
  proof (cases "t = []")
    case True
    then show ?thesis by simp
  next
    case False
    with ct have vc: "v \<noteq> scanContinue" and cc: "c = 0x2C \<or> c = 0x3A" by simp_all
    from comma_colon_codes [of S c] ns cl v vc cc
    have "v = scanObjectKey \<or> v = scanObjectValue \<or> v = scanArrayValue" by simp
    with separator_codes [of S c] ns cl v
    have "step (snd (call_step S c)) = StBeginValue \<or> step (snd (call_step S c)) = StBeginString"
      by auto
    moreover from e3 have "step T3 = step (snd (call_step S c))" "err T3 = None"
      by (simp_all add: eqv_def unb_eq T3_def)
    ultimately have ab: "absorbs T3" and ne: "\<not> ender T3"
      by (auto simp: absorbs_def ender_def)
    from absorb_run [OF ab sps(3)] ne show ?thesis by (simp add: settle_def)
  qed
  have run: "scan_run T (p @ q @ [c] @ t) = T3"
    using p q t by (simp add: scan_run_append T2_def T3_def)
  have sig: "significant T (p @ q @ [c] @ t) = (if v < scanSkipSpace then [c] else [])"
    using p q t c3 by (simp add: significant_append T2_def T3_def)
  from run sig e3 show ?thesis unfolding e T3_def by simp
qed

lemma bump_rel [simp]:
  "eqv (s\<lparr>bytes := b\<rparr>) U = eqv s U" "lag (s\<lparr>bytes := b\<rparr>) T = lag s T"
  by (auto simp: eqv_def lag_def near_def unb_def settle_def ender_def)

lemma eqv_lag: "eqv S T \<Longrightarrow> lag S T"
  by (auto simp: eqv_def lag_def near_def unb_eq settle_def ender_def)

lemma skip_lag:
  assumes "lag S T" and "step S \<noteq> StError" and "err (snd (call_step S c)) = None"
    and "fst (call_step S c) = scanSkipSpace"
  shows "lag (snd (call_step S c)) T"
proof -
  from skip_settle [of S c] assms(2,3,4)
  have s': "snd (call_step S c) = settle S" and ab: "absorbs S" by simp_all
  from assms(1) have nr: "near S T"
    and ls: "step T = step S \<or> (step S = StEndValue \<and> parseState S \<noteq> [])"
    by (simp_all add: lag_def)
  have n': "near (settle S) T" using nr by (simp add: near_def)
  show ?thesis
  proof (cases "ender S")
    case True
    with ab have "parseState S \<noteq> []" by (auto simp: absorbs_def ender_def or_empty_def)
    with True n' show ?thesis unfolding s' by (simp add: lag_def settle_def)
  next
    case False
    with ls have "step T = step S" by (auto simp: ender_def)
    with False n' show ?thesis unfolding s' by (simp add: lag_def settle_def)
  qed
qed

lemma sim_loop:
  assumes "tidy w" and "dst w = Buffer d"
    and "\<forall>b\<in>set (prefix w). isSpace b" and "\<forall>b\<in>set (indent w). isSpace b"
    and "write_loop w n cs = (Continue, n', w')" and "err (scan w') = None"
    and "lag (scan w) T" and "eqv (scan w) U"
  shows "\<exists>E. dst w' = Buffer (d @ E) \<and> lag (scan w') (scan_run T E)
           \<and> eqv (scan w') (scan_run U cs) \<and> significant T E = significant U cs"
  using assms
proof (induction cs arbitrary: w n d T U)
  case Nil
  then show ?case by auto
next
  case (Cons c cs)
  obtain x w1 where h0: "indent_byte w c = (x, w1)" by (cases "indent_byte w c") auto
  with Cons.prems(5) have h: "indent_byte w c = (Continue, w1)"
    and l: "write_loop w1 (n + 1) cs = (Continue, n', w')"
    by (cases x; simp)+
  have e1: "err (scan w1) = None"
    using write_loop_err_kept [OF _ l] Cons.prems(6) by (cases "err (scan w1)") auto
  from indent_byte_tidy [OF Cons.prems(1,2) h e1]
  have t1: "tidy w1" and pi: "prefix w1 = prefix w" "indent w1 = indent w" by simp_all
  let ?S = "(scan w)\<lparr>bytes := bytes (scan w) + 1\<rparr>"
  obtain v s1 where st: "call_step ?S c = (v, s1)" by (cases "call_step ?S c") auto
  from indent_byte_scan [OF h] st have s1: "scan w1 = s1" by simp
  with e1 st have cl: "err (snd (call_step ?S c)) = None" by simp
  from Cons.prems(1) have ns: "step ?S \<noteq> StError" and nd: "needIndent w \<longrightarrow> or_empty ?S"
    by (simp_all add: tidy_def)
  from clean_step_codes [of ?S c] ns cl st have ve: "v \<noteq> scanError" by simp
  have eU: "eqv ?S U" and lT: "lag ?S T" using Cons.prems(7,8) by simp_all
  from step_eqv [OF eU cl] st
  have cU: "fst (call_step U c) = v" and eU1: "eqv s1 (snd (call_step U c))" by simp_all
  note ib = indent_byte_Buffer [OF Cons.prems(2) st]
  show ?case
  proof (cases "v = scanSkipSpace")
    case True
    with ib h Cons.prems(2) have d1: "dst w1 = Buffer d" by auto
    from skip_lag [OF lT ns cl] st True have l1: "lag (scan w1) T" by (simp add: s1)
    from Cons.IH [OF t1 d1 _ _ l Cons.prems(6) l1, of "snd (call_step U c)"] pi Cons.prems(3,4) eU1 s1
    obtain E where "dst w' = Buffer (d @ E)" "lag (scan w') (scan_run T E)"
      "eqv (scan w') (scan_run (snd (call_step U c)) cs)"
      "significant T E = significant (snd (call_step U c)) cs" by auto
    with cU True show ?thesis by auto
  next
    case False
    let ?E1 = "fst (emit (prefix w) (indent w) (depth w) (needIndent w) v c)"
    from ib h False ve have d1: "dst w1 = Buffer (d @ ?E1)" by (auto split: prod.splits)
    from sim_byte [OF lT nd ns cl _ False Cons.prems(3,4), of "depth w"] st
    have e1': "eqv s1 (scan_run T ?E1)"
      and sg: "significant T ?E1 = (if v < scanSkipSpace then [c] else [])" by simp_all
    from eqv_lag [OF e1'] s1 have l1: "lag (scan w1) (scan_run T ?E1)" by simp
    from Cons.IH [OF t1 d1 _ _ l Cons.prems(6) l1, of "snd (call_step U c)"] pi Cons.prems(3,4) eU1 s1
    obtain E where E: "dst w' = Buffer ((d @ ?E1) @ E)" "lag (scan w') (scan_run (scan_run T ?E1) E)"
      "eqv (scan w') (scan_run (snd (call_step U c)) cs)"
      "significant (scan_run T ?E1) E = significant (snd (call_step U c)) cs" by auto
    have "significant T (?E1 @ E) = significant U (c # cs)"
      using sg E(4) cU by (simp add: significant_append)
    with E(1,2,3) show ?thesis
      by (intro exI [of _ "?E1 @ E"]) (simp add: scan_run_append)
  qed
qed

lemma eof_code:
  "fst (eof s) = (if err s \<noteq> None then scanError else if endTop s then scanEnd
                  else if endTop (snd (call_step s 0x20)) then scanEnd else scanError)"
  by (simp add: eof_def Let_def)

lemma eof_eqv:
  assumes "eqv S T"
  shows "fst (eof T) = fst (eof S)"
proof -
  from assms have "T = S\<lparr>bytes := bytes T\<rparr>"
    by (cases S; cases T) (auto simp: eqv_def unb_def)
  then obtain b where T: "T = S\<lparr>bytes := b\<rparr>" ..
  from call_step_bump_fields [where s = S and b = b and c = "0x20"] show ?thesis
    unfolding T eof_code by simp
qed

lemma eof_lag:
  assumes "lag S T" and "top_ok S" and "fst (eof S) \<noteq> scanError"
  shows "fst (eof T) \<noteq> scanError"
proof (cases "step T = step S")
  case True
  from assms(1) have "unb (settle T) = unb (settle S)" "err S = None"
    by (simp_all add: lag_def near_def)
  with True have "eqv S T" unfolding unb_eq eqv_def by simp
  from eof_eqv [OF this] assms(3) show ?thesis by simp
next
  case False
  with assms(1) have "step S = StEndValue \<and> parseState S \<noteq> []" "err S = None"
    by (simp_all add: lag_def near_def)
  with eof_unfinished [OF assms(2)] assms(3) show ?thesis by simp
qed

lemma Indent_success:
  assumes "Indent (Buffer d) src pre ind = (None, w)"
  shows "\<exists>n w'. write_loop \<lparr>dst = Buffer d, prefix = pre, indent = ind, depth = 0,
                    scan = new_scanner, needIndent = False\<rparr> 0 src = (Continue, n, w')
           \<and> err (scan w') = None \<and> fst (eof (scan w')) \<noteq> scanError \<and> w = dst w'"
proof -
  let ?w0 = "\<lparr>dst = Buffer d, prefix = pre, indent = ind, depth = 0, scan = new_scanner,
               needIndent = False\<rparr>"
  obtain r n w2 where l: "write_loop ?w0 0 src = (r, n, w2)"
    by (cases "write_loop ?w0 0 src") auto
  obtain ve s' where f: "eof (scan w2) = (ve, s')" by (cases "eof (scan w2)") auto
  have e0: "err_recorded (scan ?w0)" by (simp add: err_recorded_def new_scanner_def)
  from write_loop_scan [OF l e0]
  have s: "err_recorded (scan w2)" "r = Break \<longrightarrow> err (scan w2) \<noteq> None" by simp_all
  from eof_err_recorded [OF s(1) f]
  have t: "ve = scanError \<longrightarrow> err s' \<noteq> None" "err (scan w2) \<noteq> None \<longrightarrow> ve = scanError \<and> s' = scan w2"
    by simp_all
  have nb: "r \<noteq> Break" and wd: "w = dst w2" and ve: "ve \<noteq> scanError"
    using assms l f s t by (cases r; auto simp: Indent_def Write_def Let_def split: if_splits)+
  have nr: "r = Continue"
  proof (cases r)
    case (Return e)
    with assms l show ?thesis by (auto simp: Indent_def Write_def Let_def)
  qed (use nb in auto)
  have e2: "err (scan w2) = None" using t(2) ve by (cases "err (scan w2)") auto
  from l nr e2 f ve wd show ?thesis by auto
qed

lemma compact_conv:
  assumes "err (scan_run new_scanner src) = None"
    and "fst (eof (scan_run new_scanner src)) \<noteq> scanError"
  shows "compact (Buffer d) src esc = (None, Buffer (d @ escaped esc (significant new_scanner src)))"
proof -
  have ns: "step new_scanner \<noteq> StError" by (simp add: new_scanner_def)
  from compact_loop_char [of src "[]" src 0 0 new_scanner esc d, OF _ _ _ assms(1) ns]
  obtain start' out' where
    l: "compact_loop src esc 0 src new_scanner 0 (Buffer d)
         = (None, scan_run new_scanner src, start', Buffer out')"
    and o: "out' @ drop start' src = d @ escaped esc (significant new_scanner src)"
    by (auto simp: slice_def)
  obtain v s' where f: "eof (scan_run new_scanner src) = (v, s')"
    by (cases "eof (scan_run new_scanner src)") auto
  with assms(2) have "v \<noteq> scanError" by simp
  with l f o show ?thesis
    by (auto simp: compact_def Write_w_def)
qed

lemma Compact_conv:
  assumes "err (scan_run new_scanner src) = None"
    and "fst (eof (scan_run new_scanner src)) \<noteq> scanError"
  shows "Compact (Buffer d) src = (None, Buffer (d @ escaped False (significant new_scanner src)))"
  using compact_conv [OF assms, of d False]
  by (simp add: Compact_def compactWithRevert_def Let_def)

text \<open>
  C6 (Indent, then Compact), as the code has it. When the prefix and the indent
  string hold only space characters (space, tab, carriage return, newline) and
  \<open>Indent\<close> succeeds on \<open>src\<close>, then \<open>Compact\<close> succeeds both on what \<open>Indent\<close> appended
  and on \<open>src\<close> itself, and appends the same bytes in both cases.
\<close>

theorem indent_then_compact:
  assumes "\<forall>b\<in>set pre. isSpace b" and "\<forall>b\<in>set ind. isSpace b"
    and "Indent (Buffer d0) src pre ind = (None, w)"
  shows "\<exists>out. w = Buffer (d0 @ out)
           \<and> Compact (Buffer d) out = Compact (Buffer d) src
           \<and> fst (Compact (Buffer d) src) = None"
proof -
  let ?w0 = "\<lparr>dst = Buffer d0, prefix = pre, indent = ind, depth = 0, scan = new_scanner,
               needIndent = False\<rparr>"
  from Indent_success [OF assms(3)] obtain n w' where
    l: "write_loop ?w0 0 src = (Continue, n, w')" and e: "err (scan w') = None"
    and f: "fst (eof (scan w')) \<noteq> scanError" and w: "w = dst w'" by blast
  have t0: "tidy ?w0" by (simp add: tidy_def top_ok_def new_scanner_def)
  have r0: "lag (scan ?w0) new_scanner" "eqv (scan ?w0) new_scanner"
    by (simp_all add: lag_def near_def eqv_def new_scanner_def)
  from sim_loop [OF t0 _ _ _ l e r0, of d0] assms(1,2)
  obtain E where E: "dst w' = Buffer (d0 @ E)" "lag (scan w') (scan_run new_scanner E)"
    "eqv (scan w') (scan_run new_scanner src)"
    "significant new_scanner E = significant new_scanner src" by auto
  from write_loop_tidy [OF t0 _ l e, of d0] have tk: "top_ok (scan w')" by (simp add: tidy_def)
  from E(2) have "near (scan w') (scan_run new_scanner E)" by (simp add: lag_def)
  from near_fields(1) [OF this] have cT: "err (scan_run new_scanner E) = None" .
  from eof_lag [OF E(2) tk f] have fT: "fst (eof (scan_run new_scanner E)) \<noteq> scanError" .
  from E(3) e have cU: "err (scan_run new_scanner src) = None" by (simp add: eqv_def unb_eq)
  from eof_eqv [OF E(3)] f have fU: "fst (eof (scan_run new_scanner src)) \<noteq> scanError" by simp
  from Compact_conv [OF cT fT, of d] Compact_conv [OF cU fU, of d] E(1,4) w
  show ?thesis by auto
qed

theorem indent_then_compact_witness:
  "isSpace 0x20 \<and> isSpace 0x09
   \<and> Indent (Buffer [0x78])
       [0x20, 0x7B, 0x22, 0x61, 0x22, 0x3A, 0x5B, 0x31, 0x20, 0x2C, 0x32, 0x5D,
        0x2C, 0x22, 0x62, 0x22, 0x3A, 0x7B, 0x7D, 0x7D, 0x0A]
       [0x20] [0x09]
     = (None, Buffer ([0x78] @
     [0x7B, 0x0A, 0x20, 0x09, 0x22, 0x61, 0x22, 0x3A, 0x20, 0x5B, 0x0A, 0x20,
      0x09, 0x09, 0x31, 0x2C, 0x0A, 0x20, 0x09, 0x09, 0x32, 0x0A, 0x20, 0x09,
      0x5D, 0x2C, 0x0A, 0x20, 0x09, 0x22, 0x62, 0x22, 0x3A, 0x20, 0x7B, 0x7D,
      0x0A, 0x20, 0x7D, 0x0A]))
   \<and> Compact (Buffer [])
     [0x7B, 0x0A, 0x20, 0x09, 0x22, 0x61, 0x22, 0x3A, 0x20, 0x5B, 0x0A, 0x20,
      0x09, 0x09, 0x31, 0x2C, 0x0A, 0x20, 0x09, 0x09, 0x32, 0x0A, 0x20, 0x09,
      0x5D, 0x2C, 0x0A, 0x20, 0x09, 0x22, 0x62, 0x22, 0x3A, 0x20, 0x7B, 0x7D,
      0x0A, 0x20, 0x7D, 0x0A]
     = Compact (Buffer [])
       [0x20, 0x7B, 0x22, 0x61, 0x22, 0x3A, 0x5B, 0x31, 0x20, 0x2C, 0x32, 0x5D,
        0x2C, 0x22, 0x62, 0x22, 0x3A, 0x7B, 0x7D, 0x7D, 0x0A]
   \<and> Compact (Buffer [])
       [0x20, 0x7B, 0x22, 0x61, 0x22, 0x3A, 0x5B, 0x31, 0x20, 0x2C, 0x32, 0x5D,
        0x2C, 0x22, 0x62, 0x22, 0x3A, 0x7B, 0x7D, 0x7D, 0x0A]
     = (None, Buffer
     [0x7B, 0x22, 0x61, 0x22, 0x3A, 0x5B, 0x31, 0x2C, 0x32, 0x5D, 0x2C, 0x22,
      0x62, 0x22, 0x3A, 0x7B, 0x7D, 0x7D])"
proof -
  let ?src = "[0x20, 0x7B, 0x22, 0x61, 0x22, 0x3A, 0x5B, 0x31, 0x20, 0x2C, 0x32, 0x5D,
        0x2C, 0x22, 0x62, 0x22, 0x3A, 0x7B, 0x7D, 0x7D, 0x0A] :: byte list"
  let ?out = "[0x7B, 0x0A, 0x20, 0x09, 0x22, 0x61, 0x22, 0x3A, 0x20, 0x5B, 0x0A, 0x20,
      0x09, 0x09, 0x31, 0x2C, 0x0A, 0x20, 0x09, 0x09, 0x32, 0x0A, 0x20, 0x09,
      0x5D, 0x2C, 0x0A, 0x20, 0x09, 0x22, 0x62, 0x22, 0x3A, 0x20, 0x7B, 0x7D,
      0x0A, 0x20, 0x7D, 0x0A] :: byte list"
  have sp: "isSpace 0x20" "isSpace 0x09" by (simp_all add: isSpace_def)
  have h: "Indent (Buffer [0x78]) ?src [0x20] [0x09] = (None, Buffer ([0x78] @ ?out))"
    by code_simp
  have c: "Compact (Buffer []) ?src = (None, Buffer
     [0x7B, 0x22, 0x61, 0x22, 0x3A, 0x5B, 0x31, 0x2C, 0x32, 0x5D, 0x2C, 0x22,
      0x62, 0x22, 0x3A, 0x7B, 0x7D, 0x7D])"
    by code_simp
  from indent_then_compact [of "[0x20]" "[0x09]" "[0x78]" ?src "Buffer ([0x78] @ ?out)" "[]", OF _ _ h] sp
  obtain out where o: "Buffer ([0x78] @ ?out) = Buffer ([0x78] @ out)"
    and e: "Compact (Buffer []) out = Compact (Buffer []) ?src" by auto
  from o have "out = ?out" by simp
  with e have "Compact (Buffer []) ?out = Compact (Buffer []) ?src" by simp
  with sp h c show ?thesis by (simp only: simp_thms)
qed

text \<open>
  C6 as the spec states it, for every prefix: with the prefix \<^verbatim>\<open>x\<close> the source \<^verbatim>\<open>[1]\<close>
  is indented to text that is no JSON, so \<open>Compact\<close> fails on it while it
  succeeds on the source.
\<close>

theorem indent_then_compact_bad_prefix:
  "Indent (Buffer []) [0x5B, 0x31, 0x5D] [0x78] []
     = (None, Buffer [0x5B, 0x0A, 0x78, 0x31, 0x0A, 0x78, 0x5D])
   \<and> Compact (Buffer []) [0x5B, 0x0A, 0x78, 0x31, 0x0A, 0x78, 0x5D]
       \<noteq> Compact (Buffer []) [0x5B, 0x31, 0x5D]"
  by code_simp


end
